theory Spec2Isabelle
  imports Main
begin

section \<open>Objects of the css selector builder\<close>

text \<open>
  The source is \<^verbatim>\<open>src/task/08-objects-tasks.js\<close>: class \<^verbatim>\<open>Builder\<close> and the facade object
  \<^verbatim>\<open>cssSelectorBuilder\<close>. Objects with an identity (builders and the \<^verbatim>\<open>Error\<close> objects
  a builder's constructor creates) live in a heap and are named by references. The array
  \<^verbatim>\<open>this.order\<close> is never shared (\<^verbatim>\<open>validateOrder\<close> copies it before sorting), so it is a
  list value. Selector values and combinators are strings.
\<close>

type_synonym ref = nat

record Builder =
  idUsed :: bool
  elementUsed :: bool
  pseudoElementUsed :: bool
  order :: "int list"
  result :: string
  duplicationError :: ref
  orderError :: ref

datatype obj = ErrorObj string | BuilderObj Builder

type_synonym heap = "obj list"

definition duplicationMessage :: string where
  \<open>duplicationMessage = ''Element, id and pseudo-element should not occur more then one time inside the selector" if element, id or pseudo-element occurs twice or more times''\<close>

definition orderMessage :: string where
  \<open>orderMessage = ''Selector parts should be arranged in the following order: element, id, class, attribute, pseudo-class, pseudo-element''\<close>

text \<open>
  The field initialisers of \<^verbatim>\<open>constructor()\<close>; the two references are those of the
  \<^verbatim>\<open>Error\<close> objects it creates.
\<close>

definition Builder_fields :: "ref \<Rightarrow> ref \<Rightarrow> Builder" where
  "Builder_fields d e =
     \<lparr> idUsed = False, elementUsed = False, pseudoElementUsed = False,
       order = [], result = [], duplicationError = d, orderError = e \<rparr>"

section \<open>The methods of Builder, as functions of the receiver's state\<close>

text \<open>
  A method call either returns \<^verbatim>\<open>this\<close> or throws an error object. Both ways the receiver
  may have been assigned to before, so both outcomes carry the receiver's state after the
  call.
\<close>

datatype outcome = Returned Builder | Threw ref Builder

fun state_after :: "outcome \<Rightarrow> Builder" where
  "state_after (Returned b) = b"
| "state_after (Threw e b) = b"

fun thrown :: "outcome \<Rightarrow> ref option" where
  "thrown (Returned b) = None"
| "thrown (Threw e b) = Some e"

text \<open>
  \<^verbatim>\<open>a[i]\<close>: reading past the end of an array gives \<^verbatim>\<open>undefined\<close>, here \<open>None\<close>.
\<close>

definition at_index :: "int list \<Rightarrow> nat \<Rightarrow> int option" where
  "at_index xs i = (if i < length xs then Some (xs ! i) else None)"

text \<open>
  The loop of \<^verbatim>\<open>validateOrder\<close>, from index \<open>i\<close>: \<open>True\<close> when it throws.
\<close>

function validateOrder_loop :: "int list \<Rightarrow> int list \<Rightarrow> nat \<Rightarrow> bool" where
  "validateOrder_loop ord sortedOrder i =
     (if i < length ord then
        (if at_index ord i \<noteq> at_index sortedOrder i then True
         else validateOrder_loop ord sortedOrder (Suc i))
      else False)"
  by pat_completeness auto
termination
  by (relation "measure (\<lambda>(ord, sortedOrder, i). length ord - i)") auto

declare validateOrder_loop.simps [simp del]

text \<open>
  \<^verbatim>\<open>validateOrder()\<close> assigns nothing; it completes normally (\<open>None\<close>) or throws
  \<^verbatim>\<open>this.orderError\<close>. The comparator \<^verbatim>\<open>(a, b) => a - b\<close> sorts the numbers ascending.
\<close>

definition validateOrder :: "Builder \<Rightarrow> ref option" where
  "validateOrder this =
     (let sortedOrder = sort (order this)
      in if validateOrder_loop (order this) sortedOrder 0
         then Some (orderError this) else None)"

definition element :: "string \<Rightarrow> Builder \<Rightarrow> outcome" where
  "element v this =
     (if elementUsed this then Threw (duplicationError this) this
      else let this1 = this\<lparr>elementUsed := True\<rparr>;
               this2 = this1\<lparr>order := order this1 @ [0]\<rparr>
           in case validateOrder this2 of
                Some e \<Rightarrow> Threw e this2
              | None \<Rightarrow> Returned (this2\<lparr>result := result this2 @ v\<rparr>))"

definition id_sel :: "string \<Rightarrow> Builder \<Rightarrow> outcome" where
  "id_sel v this =
     (if idUsed this then Threw (duplicationError this) this
      else let this1 = this\<lparr>idUsed := True\<rparr>;
               this2 = this1\<lparr>order := order this1 @ [1]\<rparr>
           in case validateOrder this2 of
                Some e \<Rightarrow> Threw e this2
              | None \<Rightarrow> Returned (this2\<lparr>result := result this2 @ ''#'' @ v\<rparr>))"

definition class_sel :: "string \<Rightarrow> Builder \<Rightarrow> outcome" where
  "class_sel v this =
     (let this1 = this\<lparr>order := order this @ [2]\<rparr>
      in case validateOrder this1 of
           Some e \<Rightarrow> Threw e this1
         | None \<Rightarrow> Returned (this1\<lparr>result := result this1 @ ''.'' @ v\<rparr>))"

definition attr :: "string \<Rightarrow> Builder \<Rightarrow> outcome" where
  "attr v this =
     (let this1 = this\<lparr>order := order this @ [3]\<rparr>
      in case validateOrder this1 of
           Some e \<Rightarrow> Threw e this1
         | None \<Rightarrow> Returned (this1\<lparr>result := result this1 @ ''['' @ v @ '']''\<rparr>))"

definition pseudoClass :: "string \<Rightarrow> Builder \<Rightarrow> outcome" where
  "pseudoClass v this =
     (let this1 = this\<lparr>order := order this @ [4]\<rparr>
      in case validateOrder this1 of
           Some e \<Rightarrow> Threw e this1
         | None \<Rightarrow> Returned (this1\<lparr>result := result this1 @ '':'' @ v\<rparr>))"

definition pseudoElement :: "string \<Rightarrow> Builder \<Rightarrow> outcome" where
  "pseudoElement v this =
     (if pseudoElementUsed this then Threw (duplicationError this) this
      else let this1 = this\<lparr>pseudoElementUsed := True\<rparr>;
               this2 = this1\<lparr>order := order this1 @ [5]\<rparr>
           in case validateOrder this2 of
                Some e \<Rightarrow> Threw e this2
              | None \<Rightarrow> Returned (this2\<lparr>result := result this2 @ ''::'' @ v\<rparr>))"

definition stringify :: "Builder \<Rightarrow> string" where
  "stringify this = result this"

text \<open>
  A value in a template literal, \<^verbatim>\<open>${x}\<close>: a string as it is, \<^verbatim>\<open>undefined\<close> (here \<open>None\<close>)
  as the text \<^verbatim>\<open>undefined\<close>.
\<close>

fun template :: "string option \<Rightarrow> string" where
  "template (Some s) = s"
| "template None = ''undefined''"

text \<open>
  \<^verbatim>\<open>combine(selector1, combinator, selector2)\<close> reads the \<^verbatim>\<open>result\<close> properties of its two
  operands and appends to the receiver's; it has no throw. The two properties are passed
  as read: an operand without the property gives \<^verbatim>\<open>undefined\<close>.
\<close>

definition combine :: "string option \<Rightarrow> string \<Rightarrow> string option \<Rightarrow> Builder \<Rightarrow> Builder" where
  "combine selector1_result combinator selector2_result this =
     this\<lparr>result := result this @ template selector1_result @ '' '' @ combinator @ '' ''
       @ template selector2_result\<rparr>"

subsection \<open>The six part-append methods under one name\<close>

datatype part = Element | Ident | Class | Attr | PseudoClass | PseudoElement

fun append_part :: "part \<Rightarrow> string \<Rightarrow> Builder \<Rightarrow> outcome" where
  "append_part Element v this = element v this"
| "append_part Ident v this = id_sel v this"
| "append_part Class v this = class_sel v this"
| "append_part Attr v this = attr v this"
| "append_part PseudoClass v this = pseudoClass v this"
| "append_part PseudoElement v this = pseudoElement v this"

text \<open>The number each method pushes on \<^verbatim>\<open>this.order\<close>.\<close>

fun rank :: "part \<Rightarrow> int" where
  "rank Element = 0"
| "rank Ident = 1"
| "rank Class = 2"
| "rank Attr = 3"
| "rank PseudoClass = 4"
| "rank PseudoElement = 5"

text \<open>The flag a method tests before anything else, for the three methods that have one.\<close>

fun used :: "part \<Rightarrow> Builder \<Rightarrow> bool" where
  "used Element this = elementUsed this"
| "used Ident this = idUsed this"
| "used PseudoElement this = pseudoElementUsed this"
| "used p this = False"

text \<open>
  Calls made one after the other on the same builder, whatever each call's outcome (a
  caller may catch an error and go on using the builder): the builder's state after them.
\<close>

fun calls :: "Builder \<Rightarrow> (part \<times> string) list \<Rightarrow> Builder" where
  "calls this [] = this"
| "calls this ((p, v) # cs) = calls (state_after (append_part p v this)) cs"

text \<open>
  A chain \<^verbatim>\<open>b.p1(v1).p2(v2)...\<close>: each call is made on what the call before returned, and
  the first throw ends the chain.
\<close>

fun chain :: "Builder \<Rightarrow> (part \<times> string) list \<Rightarrow> outcome" where
  "chain this [] = Returned this"
| "chain this ((p, v) # cs) =
     (case append_part p v this of
        Returned this' \<Rightarrow> chain this' cs
      | Threw e this' \<Rightarrow> Threw e this')"

section \<open>Builders in the heap: construction, method calls, the facade\<close>

text \<open>
  A call completes normally with a reference (every method but \<^verbatim>\<open>stringify\<close> returns
  \<^verbatim>\<open>this\<close>) or abruptly with the reference of the error object thrown. \<open>NotABuilder\<close>
  stands for a method call whose receiver is not a builder (an \<^verbatim>\<open>Error\<close> object has none
  of the methods): no reference obtained from the facade is such a receiver.
\<close>

datatype completion = Normal ref | Abrupt ref | NotABuilder

definition builder_at :: "heap \<Rightarrow> ref \<Rightarrow> Builder option" where
  "builder_at h r =
     (if r < length h then (case h ! r of BuilderObj b \<Rightarrow> Some b | ErrorObj m \<Rightarrow> None)
      else None)"

definition message_at :: "heap \<Rightarrow> ref \<Rightarrow> string option" where
  "message_at h r =
     (if r < length h then (case h ! r of ErrorObj m \<Rightarrow> Some m | BuilderObj b \<Rightarrow> None)
      else None)"

text \<open>
  \<^verbatim>\<open>new Builder()\<close>: the new object takes the next free reference, and so do, after it,
  the two \<^verbatim>\<open>Error\<close> objects its constructor creates.
\<close>

definition new_Builder :: "heap \<Rightarrow> ref \<times> heap" where
  "new_Builder h =
     (let this = length h
      in (this, h @ [BuilderObj (Builder_fields (this + 1) (this + 2)),
                     ErrorObj duplicationMessage, ErrorObj orderMessage]))"

text \<open>A part-append method called on the builder that \<open>this\<close> refers to.\<close>

definition invoke :: "(Builder \<Rightarrow> outcome) \<Rightarrow> ref \<Rightarrow> heap \<Rightarrow> completion \<times> heap" where
  "invoke m this h =
     (case builder_at h this of
        None \<Rightarrow> (NotABuilder, h)
      | Some b \<Rightarrow>
          (case m b of
             Returned b' \<Rightarrow> (Normal this, h[this := BuilderObj b'])
           | Threw e b' \<Rightarrow> (Abrupt e, h[this := BuilderObj b'])))"

text \<open>
  \<^verbatim>\<open>x.result\<close> for the object \<open>r\<close> refers to: the field of a builder; an \<^verbatim>\<open>Error\<close> object
  has no such property, and reading it gives \<^verbatim>\<open>undefined\<close>.
\<close>

definition result_of :: "heap \<Rightarrow> ref \<Rightarrow> string option" where
  "result_of h r = map_option result (builder_at h r)"

text \<open>
  \<^verbatim>\<open>combine\<close> called on the builder \<open>this\<close> refers to. Whatever objects the operands refer
  to, the call returns \<^verbatim>\<open>this\<close>.
\<close>

definition invoke_combine :: "ref \<Rightarrow> string \<Rightarrow> ref \<Rightarrow> ref \<Rightarrow> heap \<Rightarrow> completion \<times> heap" where
  "invoke_combine selector1 combinator selector2 this h =
     (case builder_at h this of
        None \<Rightarrow> (NotABuilder, h)
      | Some b \<Rightarrow>
          (Normal this,
           h[this := BuilderObj
             (combine (result_of h selector1) combinator (result_of h selector2) b)]))"

text \<open>\<^verbatim>\<open>stringify()\<close> returns a string and the heap it leaves.\<close>

definition invoke_stringify :: "ref \<Rightarrow> heap \<Rightarrow> string option \<times> heap" where
  "invoke_stringify this h = (map_option stringify (builder_at h this), h)"

text \<open>The entry points of \<^verbatim>\<open>cssSelectorBuilder\<close>.\<close>

definition cssSelectorBuilder_element :: "string \<Rightarrow> heap \<Rightarrow> completion \<times> heap" where
  "cssSelectorBuilder_element v h = (case new_Builder h of (this, h') \<Rightarrow> invoke (element v) this h')"

definition cssSelectorBuilder_id :: "string \<Rightarrow> heap \<Rightarrow> completion \<times> heap" where
  "cssSelectorBuilder_id v h = (case new_Builder h of (this, h') \<Rightarrow> invoke (id_sel v) this h')"

definition cssSelectorBuilder_class :: "string \<Rightarrow> heap \<Rightarrow> completion \<times> heap" where
  "cssSelectorBuilder_class v h = (case new_Builder h of (this, h') \<Rightarrow> invoke (class_sel v) this h')"

definition cssSelectorBuilder_attr :: "string \<Rightarrow> heap \<Rightarrow> completion \<times> heap" where
  "cssSelectorBuilder_attr v h = (case new_Builder h of (this, h') \<Rightarrow> invoke (attr v) this h')"

definition cssSelectorBuilder_pseudoClass :: "string \<Rightarrow> heap \<Rightarrow> completion \<times> heap" where
  "cssSelectorBuilder_pseudoClass v h =
     (case new_Builder h of (this, h') \<Rightarrow> invoke (pseudoClass v) this h')"

definition cssSelectorBuilder_pseudoElement :: "string \<Rightarrow> heap \<Rightarrow> completion \<times> heap" where
  "cssSelectorBuilder_pseudoElement v h =
     (case new_Builder h of (this, h') \<Rightarrow> invoke (pseudoElement v) this h')"

definition cssSelectorBuilder_combine ::
  "ref \<Rightarrow> string \<Rightarrow> ref \<Rightarrow> heap \<Rightarrow> completion \<times> heap" where
  "cssSelectorBuilder_combine selector1 combinator selector2 h =
     (case new_Builder h of (this, h') \<Rightarrow> invoke_combine selector1 combinator selector2 this h')"

fun facade :: "part \<Rightarrow> string \<Rightarrow> heap \<Rightarrow> completion \<times> heap" where
  "facade Element v h = cssSelectorBuilder_element v h"
| "facade Ident v h = cssSelectorBuilder_id v h"
| "facade Class v h = cssSelectorBuilder_class v h"
| "facade Attr v h = cssSelectorBuilder_attr v h"
| "facade PseudoClass v h = cssSelectorBuilder_pseudoClass v h"
| "facade PseudoElement v h = cssSelectorBuilder_pseudoElement v h"

text \<open>
  \<^verbatim>\<open>x.m(...)\<close> where \<^verbatim>\<open>x\<close> is itself a call: the method is called on the reference the
  first call returned, in the heap it left; a throw of the first call is the throw of the
  whole expression.
\<close>

fun and_then ::
  "completion \<times> heap \<Rightarrow> (ref \<Rightarrow> heap \<Rightarrow> completion \<times> heap) \<Rightarrow> completion \<times> heap" where
  "and_then (Normal r, h) f = f r h"
| "and_then (Abrupt e, h) f = (Abrupt e, h)"
| "and_then (NotABuilder, h) f = (NotABuilder, h)"

fun invoke_chain :: "(part \<times> string) list \<Rightarrow> ref \<Rightarrow> heap \<Rightarrow> completion \<times> heap" where
  "invoke_chain [] this h = (Normal this, h)"
| "invoke_chain ((p, v) # cs) this h =
     and_then (invoke (append_part p v) this h) (invoke_chain cs)"

definition facade_chain :: "part \<Rightarrow> string \<Rightarrow> (part \<times> string) list \<Rightarrow> heap \<Rightarrow> completion \<times> heap" where
  "facade_chain p v cs h = and_then (facade p v h) (invoke_chain cs)"

text \<open>
  What the caller of an expression sees: the text of the selector it returned
  (\<open>Inr\<close>), or the message of the error it threw (\<open>Inl\<close>).
\<close>

fun observe :: "completion \<times> heap \<Rightarrow> (string + string) option" where
  "observe (Normal r, h) = map_option Inr (fst (invoke_stringify r h))"
| "observe (Abrupt e, h) = map_option Inl (message_at h e)"
| "observe (NotABuilder, h) = None"

subsection \<open>Vocabulary for stating what the methods do\<close>

text \<open>The flag a method sets, and the state after its flag assignment and its push.\<close>

fun mark :: "part \<Rightarrow> Builder \<Rightarrow> Builder" where
  "mark Element this = this\<lparr>elementUsed := True\<rparr>"
| "mark Ident this = this\<lparr>idUsed := True\<rparr>"
| "mark PseudoElement this = this\<lparr>pseudoElementUsed := True\<rparr>"
| "mark p this = this"

definition pushed :: "part \<Rightarrow> Builder \<Rightarrow> Builder" where
  "pushed p this = (mark p this)\<lparr>order := order this @ [rank p]\<rparr>"

text \<open>
  The text of one part as the specification words it: element bare, id after \<open>#\<close>, class
  after a dot, attribute in square brackets, pseudo-class after one colon, pseudo-element
  after two.
\<close>

fun fragment :: "part \<times> string \<Rightarrow> string" where
  "fragment (Element, v) = v"
| "fragment (Ident, v) = ''#'' @ v"
| "fragment (Class, v) = ''.'' @ v"
| "fragment (Attr, v) = ''['' @ v @ '']''"
| "fragment (PseudoClass, v) = '':'' @ v"
| "fragment (PseudoElement, v) = ''::'' @ v"

text \<open>
  The outcome of call number \<open>n\<close> (from 0) of a sequence of calls made on one builder.
\<close>

definition nth_call :: "Builder \<Rightarrow> (part \<times> string) list \<Rightarrow> nat \<Rightarrow> outcome" where
  "nth_call this cs n = append_part (fst (cs ! n)) (snd (cs ! n)) (calls this (take n cs))"

text \<open>
  \<^verbatim>\<open>cssSelectorBuilder.combine(e1, combinator, e2)\<close> with its operands as expressions:
  \<^verbatim>\<open>e1\<close> is evaluated, then \<^verbatim>\<open>e2\<close>, then the call is made.
\<close>

definition combine_expr ::
  "(heap \<Rightarrow> completion \<times> heap) \<Rightarrow> string \<Rightarrow> (heap \<Rightarrow> completion \<times> heap) \<Rightarrow> heap
     \<Rightarrow> completion \<times> heap" where
  "combine_expr e1 combinator e2 h =
     and_then (e1 h) (\<lambda>selector1 h1.
       and_then (e2 h1) (\<lambda>selector2 h2.
         cssSelectorBuilder_combine selector1 combinator selector2 h2))"

text \<open>\<open>n\<close> calls of \<^verbatim>\<open>stringify()\<close> one after the other: the texts returned, and the heap left.\<close>

fun stringify_repeatedly :: "nat \<Rightarrow> ref \<Rightarrow> heap \<Rightarrow> string option list \<times> heap" where
  "stringify_repeatedly 0 this h = ([], h)"
| "stringify_repeatedly (Suc n) this h =
     (case invoke_stringify this h of
        (s, h1) \<Rightarrow> (case stringify_repeatedly n this h1 of (ss, h2) \<Rightarrow> (s # ss, h2)))"

text \<open>
  What \<^verbatim>\<open>new Builder()\<close> establishes and no method undoes: a builder at reference \<open>r\<close>
  has its two error objects right after it, with the constructor's messages. The empty
  heap has the property, and the facade and the methods keep it.
\<close>

definition well_formed :: "heap \<Rightarrow> bool" where
  "well_formed h =
     (\<forall>r<length h.
        case h ! r of
          ErrorObj m \<Rightarrow> True
        | BuilderObj b \<Rightarrow>
            duplicationError b = r + 1 \<and> orderError b = r + 2
            \<and> message_at h (r + 1) = Some duplicationMessage
            \<and> message_at h (r + 2) = Some orderMessage)"

text \<open>The same builder state with other error objects.\<close>

definition relabel :: "ref \<Rightarrow> ref \<Rightarrow> Builder \<Rightarrow> Builder" where
  "relabel d e b = b\<lparr>duplicationError := d, orderError := e\<rparr>"

subsection \<open>Programs that use several builders\<close>

text \<open>
  A caller's program as a list of statements. \<open>New p v\<close> is
  \<^verbatim>\<open>const x = cssSelectorBuilder.p(v)\<close> and \<open>NewCombine i c j\<close> is
  \<^verbatim>\<open>const x = cssSelectorBuilder.combine(xi, c, xj)\<close>: each declares the next variable,
  numbered from 0. \<open>On k p v\<close> is \<^verbatim>\<open>xk.p(v)\<close> with a throw caught, so that the program goes
  on. The state of a run is the heap and the builders the variables refer to; of each
  statement the run records what \<open>observe\<close> sees. A statement that names a variable not
  yet declared is no statement of a program: it records \<open>None\<close> and changes nothing.
\<close>

datatype action = New part string | NewCombine nat string nat | On nat part string

type_synonym observation = "(string + string) option"

text \<open>A declaration binds its variable when the facade call returns.\<close>

fun keep :: "completion \<times> heap \<Rightarrow> ref list \<Rightarrow> observation \<times> heap \<times> ref list" where
  "keep (Normal r, h) xs = (observe (Normal r, h), h, xs @ [r])"
| "keep (Abrupt e, h) xs = (observe (Abrupt e, h), h, xs)"
| "keep (NotABuilder, h) xs = (None, h, xs)"

fun step :: "action \<Rightarrow> heap \<times> ref list \<Rightarrow> observation \<times> heap \<times> ref list" where
  "step (New p v) (h, xs) = keep (facade p v h) xs"
| "step (NewCombine i c j) (h, xs) =
     (if i < length xs \<and> j < length xs
      then keep (cssSelectorBuilder_combine (xs ! i) c (xs ! j) h) xs
      else (None, h, xs))"
| "step (On k p v) (h, xs) =
     (if k < length xs
      then (case invoke (append_part p v) (xs ! k) h of (c, h') \<Rightarrow> (observe (c, h'), h', xs))
      else (None, h, xs))"

fun run :: "action list \<Rightarrow> heap \<times> ref list \<Rightarrow> observation list" where
  "run [] s = []"
| "run (a # as) s = (case step a s of (ob, s') \<Rightarrow> ob # run as s')"

text \<open>
  The same programs where no state can be shared: one builder value for each variable, held
  by the variable itself, and a statement \<open>On k p v\<close> that reads and replaces the value
  of variable \<open>k\<close> alone. It is the reading of "every facade call starts a builder of its
  own" that the heap semantics is compared with.
\<close>

fun verdict :: "Builder \<Rightarrow> outcome \<Rightarrow> observation" where
  "verdict this (Returned b) = Some (Inr (stringify b))"
| "verdict this (Threw e b) =
     Some (Inl (if e = duplicationError this then duplicationMessage else orderMessage))"

fun step_private :: "action \<Rightarrow> Builder list \<Rightarrow> observation \<times> Builder list" where
  "step_private (New p v) bs =
     (verdict (Builder_fields 1 2) (append_part p v (Builder_fields 1 2)),
      bs @ [state_after (append_part p v (Builder_fields 1 2))])"
| "step_private (NewCombine i c j) bs =
     (if i < length bs \<and> j < length bs
      then (Some (Inr (stringify (bs ! i) @ '' '' @ c @ '' '' @ stringify (bs ! j))),
            bs @ [(Builder_fields 1 2)
                    \<lparr>result := stringify (bs ! i) @ '' '' @ c @ '' '' @ stringify (bs ! j)\<rparr>])
      else (None, bs))"
| "step_private (On k p v) bs =
     (if k < length bs
      then (verdict (bs ! k) (append_part p v (bs ! k)),
            bs[k := state_after (append_part p v (bs ! k))])
      else (None, bs))"

fun run_private :: "action list \<Rightarrow> Builder list \<Rightarrow> observation list" where
  "run_private [] bs = []"
| "run_private (a # as) bs = (case step_private a bs of (ob, bs') \<Rightarrow> ob # run_private as bs')"

text \<open>
  A program names only variables declared before (\<open>n\<close> are declared so far).
\<close>

fun valid :: "nat \<Rightarrow> action list \<Rightarrow> bool" where
  "valid n [] = True"
| "valid n (New p v # as) = valid (Suc n) as"
| "valid n (NewCombine i c j # as) = (i < n \<and> j < n \<and> valid (Suc n) as)"
| "valid n (On k p v # as) = (k < n \<and> valid n as)"

text \<open>
  Of the observations of a run, those of the chain of variable \<open>k\<close>: its declaration and
  the calls \<open>On k\<close>; and that chain as a program of its own, where it is variable 0.
  \<open>created_by_part\<close>: variable \<open>k\<close> is declared by one of the six part entry points.
\<close>

fun about :: "nat \<Rightarrow> nat \<Rightarrow> action list \<Rightarrow> observation list \<Rightarrow> observation list" where
  "about k n (New p v # as) (ob # obs) = (if k = n then [ob] else []) @ about k (Suc n) as obs"
| "about k n (NewCombine i c j # as) (ob # obs) =
     (if k = n then [ob] else []) @ about k (Suc n) as obs"
| "about k n (On k' p v # as) (ob # obs) = (if k' = k then [ob] else []) @ about k n as obs"
| "about k n as obs = []"

fun own :: "nat \<Rightarrow> nat \<Rightarrow> action list \<Rightarrow> action list" where
  "own k n [] = []"
| "own k n (New p v # as) = (if k = n then [New p v] else []) @ own k (Suc n) as"
| "own k n (NewCombine i c j # as) = own k (Suc n) as"
| "own k n (On k' p v # as) = (if k' = k then [On 0 p v] else []) @ own k n as"

fun created_by_part :: "nat \<Rightarrow> nat \<Rightarrow> action list \<Rightarrow> bool" where
  "created_by_part k n [] = False"
| "created_by_part k n (New p v # as) = (k = n \<or> created_by_part k (Suc n) as)"
| "created_by_part k n (NewCombine i c j # as) = (k \<noteq> n \<and> created_by_part k (Suc n) as)"
| "created_by_part k n (On k' p v # as) = created_by_part k n as"

text \<open>
  The heap of a run seen as private values: the variables refer to different builders,
  each builder has the state its variable has in the run without a heap, up to the
  references of its error objects, and the heap is well formed.
\<close>

definition private_view :: "heap \<times> ref list \<Rightarrow> Builder list \<Rightarrow> bool" where
  "private_view s bs =
     (case s of (h, xs) \<Rightarrow>
        well_formed h \<and> length xs = length bs \<and> distinct xs
        \<and> (\<forall>k<length xs. \<exists>b. builder_at h (xs ! k) = Some b \<and> bs ! k = relabel 1 2 b))"

section \<open>The order check\<close>

lemma validateOrder_loop_iff:
  "length sortedOrder = length ord \<Longrightarrow>
   validateOrder_loop ord sortedOrder i \<longleftrightarrow> (\<exists>j. i \<le> j \<and> j < length ord \<and> ord ! j \<noteq> sortedOrder ! j)"
proof (induction ord sortedOrder i rule: validateOrder_loop.induct)
  case (1 ord sortedOrder i)
  show ?case
  proof (cases "i < length ord")
    case False
    then show ?thesis
      by (simp add: validateOrder_loop.simps [of ord sortedOrder i])
  next
    case inside: True
    show ?thesis
    proof (cases "ord ! i = sortedOrder ! i")
      case False
      with inside 1(2) show ?thesis
        by (auto simp: validateOrder_loop.simps [of ord sortedOrder i] at_index_def)
    next
      case same: True
      with inside 1(2) have "validateOrder_loop ord sortedOrder i
          = validateOrder_loop ord sortedOrder (Suc i)"
        by (simp add: validateOrder_loop.simps [of ord sortedOrder i] at_index_def)
      also have "\<dots> \<longleftrightarrow> (\<exists>j. Suc i \<le> j \<and> j < length ord \<and> ord ! j \<noteq> sortedOrder ! j)"
        using 1(1) inside same 1(2) by (simp add: at_index_def)
      also have "\<dots> \<longleftrightarrow> (\<exists>j. i \<le> j \<and> j < length ord \<and> ord ! j \<noteq> sortedOrder ! j)"
        using same by (metis Suc_leD Suc_leI le_neq_implies_less)
      finally show ?thesis .
    qed
  qed
qed

lemma validateOrder_loop_sort: "validateOrder_loop ord (sort ord) 0 \<longleftrightarrow> \<not> sorted ord"
proof -
  have "validateOrder_loop ord (sort ord) 0 \<longleftrightarrow> ord \<noteq> sort ord"
    by (simp add: validateOrder_loop_iff list_eq_iff_nth_eq)
  also have "\<dots> \<longleftrightarrow> \<not> sorted ord"
    by (metis sorted_sort sorted_sort_id)
  finally show ?thesis .
qed

lemma validateOrder_eq:
  "validateOrder this = (if sorted (order this) then None else Some (orderError this))"
  by (simp add: validateOrder_def validateOrder_loop_sort)

section \<open>What one part-append call does\<close>

lemma append_part_eq:
  "append_part p v b =
     (if used p b then Threw (duplicationError b) b
      else if sorted (order b @ [rank p])
        then Returned ((pushed p b)\<lparr>result := result b @ fragment (p, v)\<rparr>)
        else Threw (orderError b) (pushed p b))"
  by (cases p)
    (simp_all add: element_def id_sel_def class_sel_def attr_def pseudoClass_def
      pseudoElement_def validateOrder_eq pushed_def)

lemma mark_fields [simp]:
  "order (mark p b) = order b"
  "result (mark p b) = result b"
  "duplicationError (mark p b) = duplicationError b"
  "orderError (mark p b) = orderError b"
  by (cases p; simp)+

lemma pushed_fields [simp]:
  "order (pushed p b) = order b @ [rank p]"
  "result (pushed p b) = result b"
  "duplicationError (pushed p b) = duplicationError b"
  "orderError (pushed p b) = orderError b"
  by (cases p; simp add: pushed_def)+

lemma used_pushed: "used q (pushed p b) \<longleftrightarrow> used q b \<or> (q = p \<and> p \<in> {Element, Ident, PseudoElement})"
  by (cases p; cases q; simp add: pushed_def)

lemma error_fields_after:
  "duplicationError (state_after (append_part p v b)) = duplicationError b"
  "orderError (state_after (append_part p v b)) = orderError b"
  by (simp_all add: append_part_eq)

lemma used_after:
  "p \<in> {Element, Ident, PseudoElement} \<Longrightarrow> used p (state_after (append_part p v b))"
  by (cases p; simp add: append_part_eq pushed_def)

lemma used_kept: "used q b \<Longrightarrow> used q (state_after (append_part p v b))"
  by (cases q; cases p; simp add: append_part_eq pushed_def)

lemma order_after:
  "order (state_after (append_part p v b)) = (if used p b then order b else order b @ [rank p])"
  by (simp add: append_part_eq)

lemma unsorted_kept:
  "\<not> sorted (order b) \<Longrightarrow> \<not> sorted (order (state_after (append_part p v b)))"
  by (simp add: order_after sorted_append)

lemma smaller_rank_throws:
  assumes "x \<in> set (order b)" and "rank p < x"
  shows "thrown (append_part p v b) = Some (if used p b then duplicationError b else orderError b)"
proof -
  have "\<not> x \<le> rank p"
    using assms(2) by simp
  with assms(1) have "\<not> sorted (order b @ [rank p])"
    by (auto simp: sorted_append)
  then show ?thesis by (simp add: append_part_eq)
qed

section \<open>Sequences of calls on one builder\<close>

lemma calls_error_fields:
  "duplicationError (calls b cs) = duplicationError b \<and> orderError (calls b cs) = orderError b"
proof (induction cs arbitrary: b)
  case Nil
  show ?case by simp
next
  case (Cons c cs)
  obtain p v where c: "c = (p, v)" by (cases c)
  show ?case
    unfolding c calls.simps using Cons.IH [of "state_after (append_part p v b)"]
    by (simp only: error_fields_after)
qed

lemma calls_used: "used q b \<Longrightarrow> used q (calls b cs)"
proof (induction cs arbitrary: b)
  case Nil
  then show ?case by simp
next
  case (Cons c cs)
  obtain p v where c: "c = (p, v)" by (cases c)
  from Cons.prems have "used q (state_after (append_part p v b))"
    by (rule used_kept)
  then show ?case
    unfolding c calls.simps by (rule Cons.IH)
qed

lemma calls_unsorted: "\<not> sorted (order b) \<Longrightarrow> \<not> sorted (order (calls b cs))"
proof (induction cs arbitrary: b)
  case Nil
  then show ?case by simp
next
  case (Cons c cs)
  obtain p v where c: "c = (p, v)" by (cases c)
  from Cons.prems have "\<not> sorted (order (state_after (append_part p v b)))"
    by (rule unsorted_kept)
  then show ?case
    unfolding c calls.simps by (rule Cons.IH)
qed

lemma calls_append: "calls b (cs @ ds) = calls (calls b cs) ds"
proof (induction cs arbitrary: b)
  case Nil
  show ?case by simp
next
  case (Cons c cs)
  obtain p v where c: "c = (p, v)" by (cases c)
  show ?case
    unfolding c append_Cons calls.simps by (rule Cons.IH)
qed

lemma calls_take_Suc:
  "n < length cs \<Longrightarrow> calls b (take (Suc n) cs) = state_after (nth_call b cs n)"
  by (simp add: take_Suc_conv_app_nth calls_append nth_call_def
      del: append_part.simps)
    (metis calls.simps(1,2) prod.collapse)

lemma order_calls_grows: "set (order b) \<subseteq> set (order (calls b cs))"
proof (induction cs arbitrary: b)
  case Nil
  show ?case by simp
next
  case (Cons c cs)
  obtain p v where c: "c = (p, v)" by (cases c)
  have "set (order b) \<subseteq> set (order (state_after (append_part p v b)))"
    by (auto simp: order_after)
  also have "\<dots> \<subseteq> set (order (calls (state_after (append_part p v b)) cs))"
    by (rule Cons.IH)
  finally show ?case
    unfolding c calls.simps .
qed

lemma committed_rank_stays:
  assumes "m < n" and "n \<le> length cs" and "thrown (nth_call b cs m) = None"
  shows "rank (fst (cs ! m)) \<in> set (order (calls b (take n cs)))"
proof -
  have m: "m < length cs" using assms by simp
  let ?b = "calls b (take (Suc m) cs)"
  have "rank (fst (cs ! m)) \<in> set (order (state_after (nth_call b cs m)))"
    using assms(3) by (simp add: nth_call_def append_part_eq split: if_splits)
  then have "rank (fst (cs ! m)) \<in> set (order ?b)"
    by (simp only: calls_take_Suc [OF m])
  moreover have "take n cs = take (Suc m) cs @ drop (Suc m) (take n cs)"
    using assms(1)
    by (metis Suc_leI append_take_drop_id min.absorb1 take_take)
  then have "calls b (take n cs) = calls ?b (drop (Suc m) (take n cs))"
    by (metis calls_append)
  ultimately show ?thesis
    using order_calls_grows [of ?b "drop (Suc m) (take n cs)"] by auto
qed

lemma sorted_calls_no_order_error:
  assumes "duplicationError b \<noteq> orderError b"
    and "sorted (order b)"
    and "\<forall>x\<in>set (order b). \<forall>c\<in>set cs. x \<le> rank (fst c)"
    and "sorted (map (\<lambda>c. rank (fst c)) cs)"
    and "n < length cs"
  shows "thrown (append_part (fst (cs ! n)) (snd (cs ! n)) (calls b (take n cs))) \<noteq> Some (orderError b)"
  using assms
proof (induction cs arbitrary: b n)
  case Nil
  then show ?case by simp
next
  case (Cons c cs)
  obtain p v where c: "c = (p, v)" by (cases c)
  show ?case
  proof (cases n)
    case 0
    have "sorted (order b @ [rank p])"
      using Cons.prems(2,3) c by (auto simp: sorted_append)
    with 0 c Cons.prems(1) show ?thesis
      by (auto simp: append_part_eq)
  next
    case (Suc m)
    let ?b = "state_after (append_part p v b)"
    have e: "duplicationError ?b \<noteq> orderError ?b" "orderError ?b = orderError b"
      using Cons.prems(1) by (simp_all add: error_fields_after)
    have ord: "order ?b = order b \<or> order ?b = order b @ [rank p]"
      by (simp add: order_after)
    have s: "sorted (order ?b)"
      using ord Cons.prems(2,3) c by (auto simp: sorted_append)
    have le: "\<forall>x\<in>set (order ?b). \<forall>d\<in>set cs. x \<le> rank (fst d)"
    proof (intro ballI)
      fix x d
      assume x: "x \<in> set (order ?b)" and d: "d \<in> set cs"
      have pd: "rank p \<le> rank (fst d)"
        using Cons.prems(4) c d by simp
      from x ord have "x \<in> set (order b) \<or> x = rank p" by auto
      then show "x \<le> rank (fst d)"
      proof
        assume "x \<in> set (order b)"
        with Cons.prems(3) d show ?thesis by simp
      next
        assume "x = rank p"
        with pd show ?thesis by simp
      qed
    qed
    have "thrown (append_part (fst (cs ! m)) (snd (cs ! m)) (calls ?b (take m cs))) \<noteq> Some (orderError ?b)"
      using Cons.IH [OF e(1) s le] Cons.prems(4,5) Suc by simp
    with Suc c e(2) show ?thesis by simp
  qed
qed

lemma chain_error_fields:
  "duplicationError (state_after (chain b cs)) = duplicationError b
   \<and> orderError (state_after (chain b cs)) = orderError b"
proof (induction cs arbitrary: b)
  case Nil
  show ?case by simp
next
  case (Cons c cs)
  obtain p v where c: "c = (p, v)" by (cases c)
  show ?case
  proof (cases "append_part p v b")
    case (Returned b1)
    with Cons.IH [of b1] error_fields_after [of p v b] show ?thesis
      unfolding c by (simp del: append_part.simps)
  next
    case (Threw x b1)
    with error_fields_after [of p v b] show ?thesis
      unfolding c by (simp del: append_part.simps)
  qed
qed

lemma chain_thrown:
  "chain b cs = Threw x b' \<Longrightarrow> x = duplicationError b \<or> x = orderError b"
proof (induction cs arbitrary: b)
  case Nil
  then show ?case by simp
next
  case (Cons c cs)
  obtain p v where c: "c = (p, v)" by (cases c)
  show ?case
  proof (cases "append_part p v b")
    case (Returned b1)
    with Cons.prems have "chain b1 cs = Threw x b'"
      unfolding c by (simp del: append_part.simps)
    from Cons.IH [OF this] error_fields_after [of p v b] Returned show ?thesis
      by simp
  next
    case (Threw y b1)
    with Cons.prems have "y = x"
      unfolding c by (simp del: append_part.simps)
    with Threw show ?thesis
      by (auto simp: append_part_eq split: if_splits)
  qed
qed

lemma chain_result:
  "chain b cs = Returned b' \<Longrightarrow> result b' = result b @ concat (map fragment cs)"
proof (induction cs arbitrary: b)
  case Nil
  then show ?case by simp
next
  case (Cons c cs)
  obtain p v where c: "c = (p, v)" by (cases c)
  from Cons.prems obtain b1 where 1: "append_part p v b = Returned b1"
    and 2: "chain b1 cs = Returned b'"
    unfolding c by (auto split: outcome.splits simp del: append_part.simps)
  from 1 have "result b1 = result b @ fragment (p, v)"
    by (auto simp: append_part_eq split: if_splits)
  with Cons.IH [OF 2] show ?case
    by (simp add: c)
qed

section \<open>Calls through the heap\<close>

lemma builder_at_update:
  "r < length h \<Longrightarrow>
   builder_at (h[r := BuilderObj b]) r' = (if r' = r then Some b else builder_at h r')"
  by (simp add: builder_at_def)

lemma message_at_update:
  "message_at (h[r := BuilderObj b]) x = (if x = r then None else message_at h x)"
  by (simp add: message_at_def)

lemma builder_at_less: "builder_at h r = Some b \<Longrightarrow> r < length h \<and> h ! r = BuilderObj b"
  by (auto simp: builder_at_def split: if_splits obj.splits)

lemma message_at_less: "message_at h x = Some m \<Longrightarrow> x < length h \<and> h ! x = ErrorObj m"
  by (auto simp: message_at_def split: if_splits obj.splits)

lemma message_at_append: "message_at h x = Some m \<Longrightarrow> message_at (h @ t) x = Some m"
  by (auto simp: message_at_def nth_append split: if_splits)

lemma invoke_eq:
  "builder_at h r = Some b \<Longrightarrow>
   invoke m r h =
     (case m b of
        Returned b' \<Rightarrow> (Normal r, h[r := BuilderObj b'])
      | Threw x b' \<Rightarrow> (Abrupt x, h[r := BuilderObj b']))"
  by (simp add: invoke_def)

lemma invoke_chain_eq:
  "builder_at h r = Some b \<Longrightarrow>
   invoke_chain cs r h =
     (case chain b cs of
        Returned b' \<Rightarrow> (Normal r, h[r := BuilderObj b'])
      | Threw x b' \<Rightarrow> (Abrupt x, h[r := BuilderObj b']))"
proof (induction cs arbitrary: b h)
  case Nil
  then show ?case
    using builder_at_less [of h r b] by (simp add: list_update_same_conv [THEN iffD2])
next
  case (Cons c cs)
  obtain p v where c: "c = (p, v)" by (cases c)
  have r: "r < length h"
    using Cons.prems builder_at_less by blast
  show ?case
  proof (cases "append_part p v b")
    case (Returned b1)
    have "builder_at (h[r := BuilderObj b1]) r = Some b1"
      using r by (simp add: builder_at_update)
    from Cons.IH [OF this] Returned show ?thesis
      unfolding c
      by (simp add: invoke_eq [OF Cons.prems] del: append_part.simps split: outcome.splits)
  next
    case (Threw x b1)
    then show ?thesis
      unfolding c by (simp add: invoke_eq [OF Cons.prems] del: append_part.simps)
  qed
qed

lemma new_Builder_eq:
  "new_Builder h =
     (length h, h @ [BuilderObj (Builder_fields (length h + 1) (length h + 2)),
                     ErrorObj duplicationMessage, ErrorObj orderMessage])"
  by (simp add: new_Builder_def Let_def)

lemma append_part_methods:
  "element v = append_part Element v"
  "id_sel v = append_part Ident v"
  "class_sel v = append_part Class v"
  "attr v = append_part Attr v"
  "pseudoClass v = append_part PseudoClass v"
  "pseudoElement v = append_part PseudoElement v"
  by (rule ext, simp)+

lemma facade_eq:
  "facade p v h = invoke (append_part p v) (fst (new_Builder h)) (snd (new_Builder h))"
  by (cases p; cases "new_Builder h")
    (simp_all add: cssSelectorBuilder_element_def cssSelectorBuilder_id_def
      cssSelectorBuilder_class_def cssSelectorBuilder_attr_def
      cssSelectorBuilder_pseudoClass_def cssSelectorBuilder_pseudoElement_def
      append_part_methods del: append_part.simps)

lemma facade_chain_eq:
  "facade_chain p v cs h =
     (case chain (Builder_fields (length h + 1) (length h + 2)) ((p, v) # cs) of
        Returned b' \<Rightarrow>
          (Normal (length h), h @ [BuilderObj b', ErrorObj duplicationMessage, ErrorObj orderMessage])
      | Threw x b' \<Rightarrow>
          (Abrupt x, h @ [BuilderObj b', ErrorObj duplicationMessage, ErrorObj orderMessage]))"
proof -
  let ?b = "Builder_fields (length h + 1) (length h + 2)"
  let ?h = "h @ [BuilderObj ?b, ErrorObj duplicationMessage, ErrorObj orderMessage]"
  have at: "builder_at ?h (length h) = Some ?b"
    by (simp add: builder_at_def)
  have "facade_chain p v cs h = invoke_chain ((p, v) # cs) (length h) ?h"
    by (simp add: facade_chain_def facade_eq new_Builder_eq del: facade.simps)
  then show ?thesis
    by (simp only: invoke_chain_eq [OF at]) (simp split: outcome.splits)
qed

lemma facade_chain_frame: "take (length h) (snd (facade_chain p v cs h)) = h"
  by (simp only: facade_chain_eq)
    (cases "chain (Builder_fields (length h + 1) (length h + 2)) ((p, v) # cs)"; simp)

lemma result_of_append: "r < length h \<Longrightarrow> result_of (h @ t) r = result_of h r"
  by (simp add: result_of_def builder_at_def nth_append)

lemma combine_heap:
  assumes "A < length h" and "B < length h"
  shows "cssSelectorBuilder_combine A c B h =
     (Normal (length h),
      h @ [BuilderObj (combine (result_of h A) c (result_of h B)
             (Builder_fields (length h + 1) (length h + 2))),
           ErrorObj duplicationMessage, ErrorObj orderMessage])"
proof -
  let ?n = "Builder_fields (length h + 1) (length h + 2)"
  let ?h = "h @ [BuilderObj ?n, ErrorObj duplicationMessage, ErrorObj orderMessage]"
  have at: "builder_at ?h (length h) = Some ?n"
    by (simp add: builder_at_def)
  have "cssSelectorBuilder_combine A c B h
      = (Normal (length h),
         ?h[length h := BuilderObj (combine (result_of ?h A) c (result_of ?h B) ?n)])"
    by (simp only: cssSelectorBuilder_combine_def new_Builder_eq invoke_combine_def at
        prod.case option.case)
  then show ?thesis
    by (simp only: result_of_append [OF assms(1)] result_of_append [OF assms(2)]) simp
qed

lemma combine_frame: "take (length h) (snd (cssSelectorBuilder_combine A c B h)) = h"
  by (simp add: cssSelectorBuilder_combine_def new_Builder_eq invoke_combine_def
      split: option.splits)

lemma facade_chain_receiver:
  "fst (facade_chain p v cs h) = Normal r \<Longrightarrow> r = fst (new_Builder h)"
  by (simp only: facade_chain_eq new_Builder_eq)
    (cases "chain (Builder_fields (length h + 1) (length h + 2)) ((p, v) # cs)"; simp)

lemma combine_returns: "fst (cssSelectorBuilder_combine A c B h) = Normal (length h)"
  by (simp add: cssSelectorBuilder_combine_def new_Builder_eq invoke_combine_def builder_at_def)

lemma combine_observed_any:
  assumes "A < length h" and "B < length h"
  shows "observe (cssSelectorBuilder_combine A c B h)
     = Some (Inr (template (result_of h A) @ '' '' @ c @ '' '' @ template (result_of h B)))"
  by (simp only: combine_heap [OF assms])
    (simp add: invoke_stringify_def builder_at_def stringify_def combine_def Builder_fields_def)

lemma combine_observed:
  assumes "builder_at h A = Some a" and "builder_at h B = Some b"
  shows "observe (cssSelectorBuilder_combine A c B h)
     = Some (Inr (stringify a @ '' '' @ c @ '' '' @ stringify b))"
proof -
  from assms have lt: "A < length h" "B < length h"
    using builder_at_less by blast+
  show ?thesis
    by (simp only: combine_observed_any [OF lt]) (simp add: result_of_def assms stringify_def)
qed

lemma and_then_assoc:
  "and_then (and_then x f) g = and_then x (\<lambda>r h. and_then (f r h) g)"
proof -
  obtain c h where x: "x = (c, h)" by (cases x)
  show ?thesis
    unfolding x by (cases c) simp_all
qed

lemma invoke_chain_append:
  "invoke_chain (cs @ ds) r h = and_then (invoke_chain cs r h) (invoke_chain ds)"
proof (induction cs arbitrary: r h)
  case Nil
  show ?case by simp
next
  case (Cons c cs)
  obtain p v where c: "c = (p, v)" by (cases c)
  have "invoke_chain (cs @ ds) = (\<lambda>r h. and_then (invoke_chain cs r h) (invoke_chain ds))"
    by (intro ext) (rule Cons.IH)
  then show ?case
    unfolding c by (simp add: and_then_assoc del: append_part.simps)
qed

lemma facade_chain_append:
  "facade_chain p v (cs @ ds) h = and_then (facade_chain p v cs h) (invoke_chain ds)"
proof -
  have "invoke_chain (cs @ ds) = (\<lambda>r h. and_then (invoke_chain cs r h) (invoke_chain ds))"
    by (intro ext) (rule invoke_chain_append)
  then show ?thesis
    by (simp add: facade_chain_def and_then_assoc)
qed

section \<open>Failed calls and the state they leave\<close>

text \<open>
  Claim C1 says that a part-append call that throws leaves the builder as it was. It does
  not: \<^verbatim>\<open>id('main').element('div')\<close> throws the order error (reference 2 of a builder
  whose error objects are 1 and 2), and the builder it leaves has \<^verbatim>\<open>elementUsed\<close> set and
  the rejected 0 on \<^verbatim>\<open>order\<close>, neither of which it had before the call.
\<close>

theorem failed_append_is_not_atomic:
  "thrown (append_part Element ''div'' (state_after (append_part Ident ''main'' (Builder_fields 1 2))))
     = Some 2
   \<and> state_after (append_part Element ''div'' (state_after (append_part Ident ''main'' (Builder_fields 1 2))))
     \<noteq> state_after (append_part Ident ''main'' (Builder_fields 1 2))
   \<and> order (state_after (append_part Ident ''main'' (Builder_fields 1 2))) = [1]
   \<and> order (state_after (append_part Element ''div''
         (state_after (append_part Ident ''main'' (Builder_fields 1 2))))) = [1, 0]
   \<and> \<not> elementUsed (state_after (append_part Ident ''main'' (Builder_fields 1 2)))
   \<and> elementUsed (state_after (append_part Element ''div''
         (state_after (append_part Ident ''main'' (Builder_fields 1 2)))))"
  by (simp add: append_part_eq Builder_fields_def pushed_def)

text \<open>
  Claim C1, amended. Each method assigns its flag and pushes its number before it calls
  \<^verbatim>\<open>validateOrder\<close>, and assigns \<^verbatim>\<open>result\<close> after. So a call that throws never changes
  \<^verbatim>\<open>result\<close>; a call that throws the duplication error (the flag of element, id or
  pseudoElement was set) changes nothing at all; a call that throws the order error leaves
  its flag set and its number pushed.
\<close>

theorem failed_append_state:
  assumes "append_part p v b = Threw e b'"
  shows "result b' = result b \<and>
    ((used p b \<and> e = duplicationError b \<and> b' = b) \<or>
     (\<not> used p b \<and> e = orderError b \<and> b' = (mark p b)\<lparr>order := order b @ [rank p]\<rparr>))"
  using assms by (auto simp: append_part_eq pushed_def split: if_splits)

theorem failed_append_state_witness:
  "append_part Ident ''x'' (state_after (append_part Ident ''main'' (Builder_fields 1 2)))
     = Threw 1 (state_after (append_part Ident ''main'' (Builder_fields 1 2)))
   \<and> append_part Element ''div'' (state_after (append_part Ident ''main'' (Builder_fields 1 2)))
     = Threw 2 \<lparr> idUsed = True, elementUsed = True, pseudoElementUsed = False,
         order = [1, 0], result = ''#main'', duplicationError = 1, orderError = 2 \<rparr>
   \<and> result \<lparr> idUsed = True, elementUsed = True, pseudoElementUsed = False,
         order = [1, 0], result = ''#main'', duplicationError = 1, orderError = 2 \<rparr>
     = result (state_after (append_part Ident ''main'' (Builder_fields 1 2)))"
proof -
  let ?b = "state_after (append_part Ident ''main'' (Builder_fields 1 2))"
  let ?b' = "\<lparr> idUsed = True, elementUsed = True, pseudoElementUsed = False,
         order = [1, 0], result = ''#main'', duplicationError = 1, orderError = 2 \<rparr>"
  have dup: "append_part Ident ''x'' ?b = Threw 1 ?b"
    by (simp add: append_part_eq Builder_fields_def pushed_def)
  have ord: "append_part Element ''div'' ?b = Threw 2 ?b'"
    by (simp add: append_part_eq Builder_fields_def pushed_def)
  from failed_append_state [OF dup] failed_append_state [OF ord] dup ord
  show ?thesis by simp
qed

section \<open>When the order error is thrown\<close>

text \<open>
  Claim C2 says that an append whose rank is below an earlier committed rank raises the
  order error. Not always: in \<^verbatim>\<open>element('a').class('b')\<close> followed by \<^verbatim>\<open>element('c')\<close> on
  the same builder, the third call pushes rank 0 after the committed rank 2, and what it
  throws is the builder's duplication error (reference 1), not its order error
  (reference 2): \<^verbatim>\<open>element\<close> tests \<^verbatim>\<open>elementUsed\<close> before it validates the order.
\<close>

theorem duplicate_check_hides_order_error:
  "rank Element < rank Class
   \<and> thrown (nth_call (Builder_fields 1 2) [(Element, ''a''), (Class, ''b''), (Element, ''c'')] 1) = None
   \<and> orderError (Builder_fields 1 2) = 2
   \<and> thrown (nth_call (Builder_fields 1 2) [(Element, ''a''), (Class, ''b''), (Element, ''c'')] 2) = Some 1"
  by (simp add: nth_call_def append_part_eq Builder_fields_def pushed_def)

text \<open>
  Claim C2, amended. On a new builder (error objects \<open>d\<close> and \<open>e\<close>), in a sequence of
  part-append calls whose ranks are non-decreasing no call throws the order error; and
  in any sequence, a call whose rank is strictly less than the rank of an earlier call
  that returned throws the order error, unless it is element, id or pseudoElement with its
  flag already set, when it throws the duplication error.
\<close>

theorem order_error_when_monotonicity_breaks:
  assumes "d \<noteq> e"
  shows "(sorted (map (\<lambda>c. rank (fst c)) cs) \<longrightarrow>
            (\<forall>n<length cs. thrown (nth_call (Builder_fields d e) cs n) \<noteq> Some e))
       \<and> (\<forall>m n. m < n \<and> n < length cs
             \<and> thrown (nth_call (Builder_fields d e) cs m) = None
             \<and> rank (fst (cs ! n)) < rank (fst (cs ! m)) \<longrightarrow>
             thrown (nth_call (Builder_fields d e) cs n)
               = Some (if used (fst (cs ! n)) (calls (Builder_fields d e) (take n cs)) then d else e))"
proof (intro conjI impI allI)
  fix n
  assume "sorted (map (\<lambda>c. rank (fst c)) cs)" and "n < length cs"
  with assms show "thrown (nth_call (Builder_fields d e) cs n) \<noteq> Some e"
    using sorted_calls_no_order_error [of "Builder_fields d e" cs n]
    by (simp add: Builder_fields_def nth_call_def)
next
  fix m n
  let ?b = "calls (Builder_fields d e) (take n cs)"
  assume h: "m < n \<and> n < length cs
             \<and> thrown (nth_call (Builder_fields d e) cs m) = None
             \<and> rank (fst (cs ! n)) < rank (fst (cs ! m))"
  then have "rank (fst (cs ! m)) \<in> set (order ?b)"
    using committed_rank_stays [of m n cs "Builder_fields d e"] by simp
  with h have "thrown (append_part (fst (cs ! n)) (snd (cs ! n)) ?b)
      = Some (if used (fst (cs ! n)) ?b then duplicationError ?b else orderError ?b)"
    using smaller_rank_throws by blast
  then show "thrown (nth_call (Builder_fields d e) cs n)
      = Some (if used (fst (cs ! n)) ?b then d else e)"
    by (simp add: nth_call_def calls_error_fields Builder_fields_def)
qed

theorem order_error_when_monotonicity_breaks_witness:
  "thrown (nth_call (Builder_fields 1 2) [(Element, ''div''), (Ident, ''main''), (Class, ''c''), (Class, ''d'')] 3) \<noteq> Some 2
   \<and> thrown (nth_call (Builder_fields 1 2) [(Ident, ''main''), (Element, ''div'')] 1) = Some 2"
proof -
  let ?good = "[(Element, ''div''), (Ident, ''main''), (Class, ''c''), (Class, ''d'')]"
  let ?bad = "[(Ident, ''main''), (Element, ''div'')]"
  have ne: "(1::nat) \<noteq> 2" by simp
  have s: "sorted (map (\<lambda>c. rank (fst c)) ?good)" by simp
  have n: "(3::nat) < length ?good" by simp
  have c: "(0::nat) < 1 \<and> 1 < length ?bad
     \<and> thrown (nth_call (Builder_fields 1 2) ?bad 0) = None
     \<and> rank (fst (?bad ! 1)) < rank (fst (?bad ! 0))"
    by (simp add: nth_call_def append_part_eq Builder_fields_def pushed_def)
  have u: "\<not> used (fst (?bad ! 1)) (calls (Builder_fields 1 2) (take 1 ?bad))"
    by (simp add: append_part_eq Builder_fields_def pushed_def)
  from order_error_when_monotonicity_breaks [OF ne, of ?good] s n
  have "thrown (nth_call (Builder_fields 1 2) ?good 3) \<noteq> Some 2" by blast
  moreover have "thrown (nth_call (Builder_fields 1 2) ?bad 1) = Some 2"
    using conjunct2 [OF order_error_when_monotonicity_breaks [OF ne, of ?bad], rule_format, OF c] u
    by simp
  ultimately show ?thesis by simp
qed

section \<open>The duplication error\<close>

text \<open>
  Claim C3. After one call of element, id or pseudoElement on a builder (whatever that
  call's outcome, and whatever calls \<open>cs\<close> were made since), a second call of the same
  method throws the builder's duplication error and changes nothing. A call of class,
  attr or pseudoClass never throws the duplication error, whatever the builder's state.
\<close>

theorem second_call_is_duplicate:
  "(p \<in> {Element, Ident, PseudoElement} \<longrightarrow>
      append_part p w (calls (state_after (append_part p v b)) cs)
        = Threw (duplicationError b) (calls (state_after (append_part p v b)) cs))
   \<and> (p \<in> {Class, Attr, PseudoClass} \<and> duplicationError b \<noteq> orderError b \<longrightarrow>
      thrown (append_part p v b) \<noteq> Some (duplicationError b))"
proof (intro conjI impI)
  let ?b = "calls (state_after (append_part p v b)) cs"
  assume "p \<in> {Element, Ident, PseudoElement}"
  then have "used p (state_after (append_part p v b))"
    by (rule used_after)
  then have "used p ?b"
    by (rule calls_used)
  moreover have "duplicationError ?b = duplicationError b"
    by (simp add: calls_error_fields error_fields_after)
  ultimately show "append_part p w ?b = Threw (duplicationError b) ?b"
    by (simp add: append_part_eq)
next
  assume "p \<in> {Class, Attr, PseudoClass} \<and> duplicationError b \<noteq> orderError b"
  then have "\<not> used p b" and "duplicationError b \<noteq> orderError b"
    by auto
  then show "thrown (append_part p v b) \<noteq> Some (duplicationError b)"
    by (auto simp: append_part_eq)
qed

theorem second_call_is_duplicate_witness:
  "append_part Element ''table''
      (calls (state_after (append_part Element ''div'' (Builder_fields 1 2)))
         [(Ident, ''main''), (Class, ''container''), (Class, ''draggable'')])
     = Threw 1 \<lparr> idUsed = True, elementUsed = True, pseudoElementUsed = False,
         order = [0, 1, 2, 2], result = ''div#main.container.draggable'',
         duplicationError = 1, orderError = 2 \<rparr>
   \<and> thrown (append_part Class ''editable''
        (calls (Builder_fields 1 2) [(Class, ''container''), (Class, ''container'')])) \<noteq> Some 1"
proof -
  let ?cs = "[(Ident, ''main''), (Class, ''container''), (Class, ''draggable'')]"
  let ?b2 = "calls (Builder_fields 1 2) [(Class, ''container''), (Class, ''container'')]"
  have e: "Element \<in> {Element, Ident, PseudoElement}" by simp
  have c: "Class \<in> {Class, Attr, PseudoClass} \<and> duplicationError ?b2 \<noteq> orderError ?b2"
    by (simp only: calls_error_fields) (simp add: Builder_fields_def)
  have d: "duplicationError ?b2 = 1"
    by (simp only: calls_error_fields) (simp add: Builder_fields_def)
  have st: "calls (state_after (append_part Element ''div'' (Builder_fields 1 2))) ?cs
     = \<lparr> idUsed = True, elementUsed = True, pseudoElementUsed = False,
         order = [0, 1, 2, 2], result = ''div#main.container.draggable'',
         duplicationError = 1, orderError = 2 \<rparr>"
    by (simp add: append_part_eq Builder_fields_def pushed_def)
  from second_call_is_duplicate [of Element "''table''" "''div''" "Builder_fields 1 2" ?cs] e
  have "append_part Element ''table''
      (calls (state_after (append_part Element ''div'' (Builder_fields 1 2))) ?cs)
     = Threw (duplicationError (Builder_fields 1 2))
        (calls (state_after (append_part Element ''div'' (Builder_fields 1 2))) ?cs)"
    by blast
  moreover from second_call_is_duplicate [of Class "''x''" "''editable''" ?b2 "[]"] c
  have "thrown (append_part Class ''editable'' ?b2) \<noteq> Some (duplicationError ?b2)"
    by blast
  moreover have "duplicationError (Builder_fields 1 2) = 1"
    by (simp add: Builder_fields_def)
  ultimately show ?thesis
    by (simp only: st d) simp
qed

text \<open>
  Claim C4. When the flag of element, id or pseudoElement is set and the order check on
  the pushed rank would throw as well, the call throws the duplication error, not the
  order error.
\<close>

theorem duplicate_error_takes_precedence:
  assumes "used p b" and "validateOrder (pushed p b) = Some (orderError b)"
    and "duplicationError b \<noteq> orderError b"
  shows "append_part p v b = Threw (duplicationError b) b
       \<and> thrown (append_part p v b) \<noteq> Some (orderError b)"
  using assms by (simp add: append_part_eq)

theorem duplicate_error_takes_precedence_witness:
  "append_part Element ''table'' (calls (Builder_fields 1 2) [(Element, ''div''), (Class, ''container'')])
     = Threw 1 (calls (Builder_fields 1 2) [(Element, ''div''), (Class, ''container'')])
   \<and> thrown (append_part Element ''table''
        (calls (Builder_fields 1 2) [(Element, ''div''), (Class, ''container'')])) \<noteq> Some 2"
proof -
  let ?b = "calls (Builder_fields 1 2) [(Element, ''div''), (Class, ''container'')]"
  have b: "?b = \<lparr> idUsed = False, elementUsed = True, pseudoElementUsed = False,
         order = [0, 2], result = ''div.container'', duplicationError = 1, orderError = 2 \<rparr>"
    by (simp add: append_part_eq Builder_fields_def pushed_def)
  have u: "used Element ?b"
    by (simp only: b) simp
  have o: "validateOrder (pushed Element ?b) = Some (orderError ?b)"
    by (simp only: b) (simp add: validateOrder_eq pushed_def)
  have n: "duplicationError ?b \<noteq> orderError ?b"
    by (simp only: b) simp
  from duplicate_error_takes_precedence [OF u o n, of "''table''"]
  show ?thesis by (simp only: b) simp
qed

section \<open>After an order error\<close>

text \<open>
  Claim C10. Once a part-append call has thrown the order error, every later part-append
  call on that builder throws, after any calls \<open>cs\<close> in between: the rejected rank stays
  on \<^verbatim>\<open>order\<close>, which never again equals its sorted copy, and a repeated element, id or
  pseudoElement call meets the flag the failed call set and throws the duplication error.
\<close>

theorem order_failure_closes_builder:
  assumes "duplicationError b \<noteq> orderError b"
    and "append_part p v b = Threw (orderError b) b1"
  shows "thrown (append_part q w (calls b1 cs)) \<noteq> None
       \<and> rank p \<in> set (order (calls b1 cs))
       \<and> order (calls b1 cs) \<noteq> sort (order (calls b1 cs))
       \<and> (p \<in> {Element, Ident, PseudoElement} \<longrightarrow>
            append_part p w (calls b1 cs) = Threw (duplicationError b) (calls b1 cs))"
proof -
  from assms have nu: "\<not> used p b" and ns: "\<not> sorted (order b @ [rank p])"
    and b1: "b1 = pushed p b"
    by (auto simp: append_part_eq split: if_splits)
  let ?b = "calls b1 cs"
  have uns: "\<not> sorted (order ?b)"
    using ns by (intro calls_unsorted) (simp add: b1)
  then have "\<not> sorted (order ?b @ [rank q])"
    by (simp add: sorted_append)
  then have 1: "thrown (append_part q w ?b) \<noteq> None"
    by (simp add: append_part_eq)
  have 2: "rank p \<in> set (order ?b)"
    using order_calls_grows [of b1 cs] by (auto simp: b1)
  have 3: "order ?b \<noteq> sort (order ?b)"
    using uns by (metis sorted_sort)
  have 4: "append_part p w ?b = Threw (duplicationError b) ?b"
    if "p \<in> {Element, Ident, PseudoElement}"
  proof -
    from that have "used p b1"
      by (auto simp: b1 used_pushed)
    then have "used p ?b" by (rule calls_used)
    moreover have "duplicationError ?b = duplicationError b"
      by (simp add: calls_error_fields b1)
    ultimately show ?thesis by (simp add: append_part_eq)
  qed
  from 1 2 3 4 show ?thesis by blast
qed

theorem order_failure_closes_builder_witness:
  "append_part Element ''div'' (state_after (append_part Ident ''main'' (Builder_fields 1 2)))
     = Threw 2 \<lparr> idUsed = True, elementUsed = True, pseudoElementUsed = False,
         order = [1, 0], result = ''#main'', duplicationError = 1, orderError = 2 \<rparr>
   \<and> thrown (append_part PseudoElement ''after''
       (calls \<lparr> idUsed = True, elementUsed = True, pseudoElementUsed = False,
         order = [1, 0], result = ''#main'', duplicationError = 1, orderError = 2 \<rparr>
         [(Class, ''c'')])) \<noteq> None
   \<and> append_part Element ''p''
       (calls \<lparr> idUsed = True, elementUsed = True, pseudoElementUsed = False,
         order = [1, 0], result = ''#main'', duplicationError = 1, orderError = 2 \<rparr>
         [(Class, ''c'')])
      = Threw 1 (calls \<lparr> idUsed = True, elementUsed = True, pseudoElementUsed = False,
         order = [1, 0], result = ''#main'', duplicationError = 1, orderError = 2 \<rparr>
         [(Class, ''c'')])"
proof -
  let ?b = "state_after (append_part Ident ''main'' (Builder_fields 1 2))"
  let ?b1 = "\<lparr> idUsed = True, elementUsed = True, pseudoElementUsed = False,
         order = [1, 0], result = ''#main'', duplicationError = 1, orderError = 2 \<rparr>"
  have f: "duplicationError ?b = 1" "orderError ?b = 2"
    by (simp_all only: error_fields_after) (simp_all add: Builder_fields_def)
  have n: "duplicationError ?b \<noteq> orderError ?b"
    unfolding f by simp
  have t: "append_part Element ''div'' ?b = Threw (orderError ?b) ?b1"
    by (simp add: append_part_eq Builder_fields_def pushed_def)
  have e: "Element \<in> {Element, Ident, PseudoElement}" by simp
  note c = order_failure_closes_builder [OF n t, of _ _ "[(Class, ''c'')]"]
  from c [of PseudoElement "''after''"]
  have "thrown (append_part PseudoElement ''after'' (calls ?b1 [(Class, ''c'')])) \<noteq> None"
    by blast
  moreover from c [of Element "''p''"] e
  have "append_part Element ''p'' (calls ?b1 [(Class, ''c'')])
      = Threw (duplicationError ?b) (calls ?b1 [(Class, ''c'')])"
    by blast
  ultimately show ?thesis
    using t by (simp only: f) simp
qed

section \<open>The rendered text\<close>

text \<open>
  Claim C5. For operands \<open>A\<close> and \<open>B\<close> that refer to builders and any combinator text
  \<open>c\<close>, \<^verbatim>\<open>cssSelectorBuilder.combine(A, c, B).stringify()\<close> is the text of \<open>A\<close>, a space,
  \<open>c\<close> as it is, a space, the text of \<open>B\<close>; and
  \<^verbatim>\<open>combine(element('div').id('main'), '+', element('table').id('data')).stringify()\<close> is
  \<^verbatim>\<open>div#main + table#data\<close>.
\<close>

theorem combine_renders_operands:
  "(builder_at h A = Some a \<and> builder_at h B = Some b \<longrightarrow>
      observe (cssSelectorBuilder_combine A c B h)
        = Some (Inr (stringify a @ '' '' @ c @ '' '' @ stringify b)))
   \<and> observe (combine_expr (facade_chain Element ''div'' [(Ident, ''main'')]) ''+''
        (facade_chain Element ''table'' [(Ident, ''data'')]) [])
        = Some (Inr ''div#main + table#data'')"
proof (intro conjI impI)
  assume "builder_at h A = Some a \<and> builder_at h B = Some b"
  then show "observe (cssSelectorBuilder_combine A c B h)
      = Some (Inr (stringify a @ '' '' @ c @ '' '' @ stringify b))"
    by (simp add: combine_observed)
next
  let ?a = "\<lparr> idUsed = True, elementUsed = True, pseudoElementUsed = False,
         order = [0, 1], result = ''div#main'', duplicationError = 1, orderError = 2 \<rparr>"
  let ?b = "\<lparr> idUsed = True, elementUsed = True, pseudoElementUsed = False,
         order = [0, 1], result = ''table#data'', duplicationError = 4, orderError = 5 \<rparr>"
  let ?h1 = "[BuilderObj ?a, ErrorObj duplicationMessage, ErrorObj orderMessage]"
  let ?h2 = "[BuilderObj ?a, ErrorObj duplicationMessage, ErrorObj orderMessage,
              BuilderObj ?b, ErrorObj duplicationMessage, ErrorObj orderMessage]"
  have 1: "facade_chain Element ''div'' [(Ident, ''main'')] [] = (Normal 0, ?h1)"
    by (simp add: facade_chain_eq append_part_eq pushed_def Builder_fields_def)
  have 2: "facade_chain Element ''table'' [(Ident, ''data'')] ?h1 = (Normal 3, ?h2)"
    by (simp add: facade_chain_eq append_part_eq pushed_def Builder_fields_def)
  have a: "builder_at ?h2 0 = Some ?a"
    by (simp add: builder_at_def)
  have b: "builder_at ?h2 3 = Some ?b"
    by (simp add: builder_at_def)
  have "combine_expr (facade_chain Element ''div'' [(Ident, ''main'')]) ''+''
        (facade_chain Element ''table'' [(Ident, ''data'')]) []
      = cssSelectorBuilder_combine 0 ''+'' 3 ?h2"
    by (simp only: combine_expr_def 1 and_then.simps 2)
  then show "observe (combine_expr (facade_chain Element ''div'' [(Ident, ''main'')]) ''+''
        (facade_chain Element ''table'' [(Ident, ''data'')]) [])
        = Some (Inr ''div#main + table#data'')"
    by (simp only: combine_observed [OF a b]) (simp add: stringify_def)
qed

theorem combine_renders_operands_witness:
  "observe (cssSelectorBuilder_combine 0 ''~'' 3
     [BuilderObj \<lparr> idUsed = True, elementUsed = True, pseudoElementUsed = False,
         order = [0, 1], result = ''div#main'', duplicationError = 1, orderError = 2 \<rparr>,
      ErrorObj duplicationMessage, ErrorObj orderMessage,
      BuilderObj \<lparr> idUsed = False, elementUsed = True, pseudoElementUsed = False,
         order = [0, 4], result = ''tr:nth-of-type(even)'', duplicationError = 4, orderError = 5 \<rparr>,
      ErrorObj duplicationMessage, ErrorObj orderMessage])
   = Some (Inr ''div#main ~ tr:nth-of-type(even)'')"
proof -
  let ?a = "\<lparr> idUsed = True, elementUsed = True, pseudoElementUsed = False,
         order = [0, 1], result = ''div#main'', duplicationError = 1, orderError = 2 \<rparr>"
  let ?b = "\<lparr> idUsed = False, elementUsed = True, pseudoElementUsed = False,
         order = [0, 4], result = ''tr:nth-of-type(even)'', duplicationError = 4, orderError = 5 \<rparr>"
  let ?h = "[BuilderObj ?a, ErrorObj duplicationMessage, ErrorObj orderMessage,
             BuilderObj ?b, ErrorObj duplicationMessage, ErrorObj orderMessage]"
  have ab: "builder_at ?h 0 = Some ?a \<and> builder_at ?h 3 = Some ?b"
    by (simp add: builder_at_def)
  from combine_renders_operands [of ?h 0 ?a 3 ?b "''~''"] ab
  have "observe (cssSelectorBuilder_combine 0 ''~'' 3 ?h)
      = Some (Inr (stringify ?a @ '' '' @ ''~'' @ '' '' @ stringify ?b))"
    by blast
  then show ?thesis
    by (simp add: stringify_def)
qed

text \<open>
  Claim C6. When every call of a chain returns, the text of the builder is the text it
  had before followed by the fragments of the parts in the order of the calls (element
  bare, \<open>#\<close>id, \<open>.\<close>class, \<open>[\<close>attr\<open>]\<close>, \<open>:\<close>pseudoClass, \<open>::\<close>pseudoElement); a chain
  started at the facade starts from the empty text. The two examples of the
  specification are evaluated.
\<close>

theorem stringify_concatenates_fragments:
  \<open>(chain b cs = Returned b' \<longrightarrow> stringify b' = stringify b @ concat (map fragment cs))
   \<and> (fst (facade_chain p v ds h) = Normal r \<longrightarrow>
        observe (facade_chain p v ds h) = Some (Inr (concat (map fragment ((p, v) # ds)))))
   \<and> observe (facade_chain Ident ''main'' [(Class, ''container''), (Class, ''editable'')] [])
        = Some (Inr ''#main.container.editable'')
   \<and> observe (facade_chain Element ''a'' [(Attr, ''href$=".png"''), (PseudoClass, ''focus'')] [])
        = Some (Inr ''a[href$=".png"]:focus'')\<close>
proof (intro conjI impI)
  assume "chain b cs = Returned b'"
  then show "stringify b' = stringify b @ concat (map fragment cs)"
    by (simp add: stringify_def chain_result)
next
  let ?n = "Builder_fields (length h + 1) (length h + 2)"
  assume "fst (facade_chain p v ds h) = Normal r"
  then obtain c' where c: "chain ?n ((p, v) # ds) = Returned c'"
    by (simp only: facade_chain_eq split: outcome.splits) simp
  from chain_result [OF c] have "result c' = concat (map fragment ((p, v) # ds))"
    by (simp add: Builder_fields_def)
  then show "observe (facade_chain p v ds h) = Some (Inr (concat (map fragment ((p, v) # ds))))"
    by (simp only: facade_chain_eq c)
      (simp add: invoke_stringify_def builder_at_def stringify_def)
next
  show "observe (facade_chain Ident ''main'' [(Class, ''container''), (Class, ''editable'')] [])
        = Some (Inr ''#main.container.editable'')"
    by (simp add: facade_chain_eq append_part_eq pushed_def Builder_fields_def
        invoke_stringify_def builder_at_def stringify_def)
next
  show \<open>observe (facade_chain Element ''a'' [(Attr, ''href$=".png"''), (PseudoClass, ''focus'')] [])
        = Some (Inr ''a[href$=".png"]:focus'')\<close>
    by (simp add: facade_chain_eq append_part_eq pushed_def Builder_fields_def
        invoke_stringify_def builder_at_def stringify_def)
qed

theorem stringify_concatenates_fragments_witness:
  "chain (Builder_fields 1 2)
       [(Element, ''li''), (Ident, ''x''), (Class, ''c''), (Attr, ''k''), (PseudoClass, ''hover''),
        (PseudoElement, ''after'')]
     = Returned \<lparr> idUsed = True, elementUsed = True, pseudoElementUsed = True,
         order = [0, 1, 2, 3, 4, 5], result = ''li#x.c[k]:hover::after'',
         duplicationError = 1, orderError = 2 \<rparr>
   \<and> stringify \<lparr> idUsed = True, elementUsed = True, pseudoElementUsed = True,
         order = [0, 1, 2, 3, 4, 5], result = ''li#x.c[k]:hover::after'',
         duplicationError = 1, orderError = 2 \<rparr>
     = ''li'' @ ''#x'' @ ''.c'' @ ''[k]'' @ '':hover'' @ ''::after''
   \<and> fst (facade_chain Element ''li'' [(PseudoElement, ''after'')] []) = Normal 0
   \<and> observe (facade_chain Element ''li'' [(PseudoElement, ''after'')] [])
       = Some (Inr ''li::after'')"
proof -
  let ?cs = "[(Element, ''li''), (Ident, ''x''), (Class, ''c''), (Attr, ''k''), (PseudoClass, ''hover''),
        (PseudoElement, ''after'')]"
  let ?b' = "\<lparr> idUsed = True, elementUsed = True, pseudoElementUsed = True,
         order = [0, 1, 2, 3, 4, 5], result = ''li#x.c[k]:hover::after'',
         duplicationError = 1, orderError = 2 \<rparr>"
  have c: "chain (Builder_fields 1 2) ?cs = Returned ?b'"
    by (simp add: append_part_eq pushed_def Builder_fields_def)
  have f: "fst (facade_chain Element ''li'' [(PseudoElement, ''after'')] []) = Normal 0"
    by (simp add: facade_chain_eq append_part_eq pushed_def Builder_fields_def)
  note t = stringify_concatenates_fragments
  from t [of "Builder_fields 1 2" ?cs ?b'] c
  have "stringify ?b' = stringify (Builder_fields 1 2) @ concat (map fragment ?cs)"
    by blast
  moreover from t [of _ _ _ Element "''li''" "[(PseudoElement, ''after'')]" "[]" 0] f
  have "observe (facade_chain Element ''li'' [(PseudoElement, ''after'')] [])
      = Some (Inr (concat (map fragment [(Element, ''li''), (PseudoElement, ''after'')])))"
    by blast
  ultimately show ?thesis
    using c f by (simp add: stringify_def Builder_fields_def del: chain.simps)
qed

text \<open>
  Claim C7. \<^verbatim>\<open>stringify()\<close> leaves the heap as it found it, and any number of calls one
  after the other all return the text the first call returns.
\<close>

theorem stringify_is_idempotent:
  "stringify_repeatedly n this h = (replicate n (fst (invoke_stringify this h)), h)
   \<and> snd (invoke_stringify this h) = h"
proof (induction n)
  case 0
  show ?case by (simp add: invoke_stringify_def)
next
  case (Suc n)
  then show ?case by (simp add: invoke_stringify_def)
qed

section \<open>Error objects and the heap\<close>

lemma well_formed_Nil: "well_formed []"
  by (simp add: well_formed_def)

lemma well_formed_builder:
  assumes "well_formed h" and "builder_at h r = Some b"
  shows "duplicationError b = r + 1" "orderError b = r + 2"
    "message_at h (r + 1) = Some duplicationMessage"
    "message_at h (r + 2) = Some orderMessage"
  using assms builder_at_less [OF assms(2)]
  by (auto simp: well_formed_def split: obj.splits)

lemma well_formed_update:
  assumes "well_formed h" and "builder_at h r = Some b"
    and "duplicationError b' = duplicationError b" and "orderError b' = orderError b"
  shows "well_formed (h[r := BuilderObj b'])"
  unfolding well_formed_def
proof (intro allI impI)
  fix s
  assume "s < length (h[r := BuilderObj b'])"
  then have s: "s < length h" by simp
  have r: "r < length h" "h ! r = BuilderObj b"
    using builder_at_less [OF assms(2)] by simp_all
  have keep: "message_at (h[r := BuilderObj b']) x = Some m" if "message_at h x = Some m" for x m
  proof -
    from that r have "x \<noteq> r"
      using message_at_less by fastforce
    with that show ?thesis by (simp add: message_at_update)
  qed
  show "case h[r := BuilderObj b'] ! s of
          ErrorObj m \<Rightarrow> True
        | BuilderObj b \<Rightarrow>
            duplicationError b = s + 1 \<and> orderError b = s + 2
            \<and> message_at (h[r := BuilderObj b']) (s + 1) = Some duplicationMessage
            \<and> message_at (h[r := BuilderObj b']) (s + 2) = Some orderMessage"
  proof (cases "s = r")
    case True
    with r assms well_formed_builder [OF assms(1,2)] show ?thesis
      by (simp add: keep)
  next
    case False
    show ?thesis
    proof (cases "h ! s")
      case (ErrorObj m)
      with False show ?thesis by simp
    next
      case (BuilderObj c)
      with s have "builder_at h s = Some c"
        by (simp add: builder_at_def)
      from well_formed_builder [OF assms(1) this] False BuilderObj show ?thesis
        by (simp add: keep)
    qed
  qed
qed

lemma well_formed_new:
  assumes "well_formed h"
    and "duplicationError b = length h + 1" and "orderError b = length h + 2"
  shows "well_formed (h @ [BuilderObj b, ErrorObj duplicationMessage, ErrorObj orderMessage])"
  unfolding well_formed_def
proof (intro allI impI)
  let ?h = "h @ [BuilderObj b, ErrorObj duplicationMessage, ErrorObj orderMessage]"
  fix s
  assume s: "s < length ?h"
  show "case ?h ! s of
          ErrorObj m \<Rightarrow> True
        | BuilderObj b \<Rightarrow>
            duplicationError b = s + 1 \<and> orderError b = s + 2
            \<and> message_at ?h (s + 1) = Some duplicationMessage
            \<and> message_at ?h (s + 2) = Some orderMessage"
  proof (cases "s < length h")
    case True
    show ?thesis
    proof (cases "h ! s")
      case (ErrorObj m)
      with True show ?thesis by (simp add: nth_append)
    next
      case (BuilderObj c)
      with True have "builder_at h s = Some c"
        by (simp add: builder_at_def)
      from well_formed_builder [OF assms(1) this] True BuilderObj show ?thesis
        by (simp add: nth_append message_at_append)
    qed
  next
    case False
    with s have "s = length h \<or> s = length h + 1 \<or> s = length h + 2"
      by auto
    then show ?thesis
      using assms(2,3) by (auto simp: nth_append message_at_def)
  qed
qed

lemma well_formed_invoke:
  assumes "well_formed h"
  shows "well_formed (snd (invoke (append_part p v) this h))"
proof (cases "builder_at h this")
  case None
  with assms show ?thesis by (simp add: invoke_def)
next
  case (Some b)
  have "well_formed (h[this := BuilderObj (state_after (append_part p v b))])"
    using assms Some by (rule well_formed_update) (simp_all only: error_fields_after)
  then show ?thesis
    by (simp only: invoke_eq [OF Some] split: outcome.splits) (cases "append_part p v b"; simp)
qed

lemma well_formed_facade_chain:
  assumes "well_formed h"
  shows "well_formed (snd (facade_chain p v cs h))"
proof -
  let ?b = "Builder_fields (length h + 1) (length h + 2)"
  let ?b' = "state_after (chain ?b ((p, v) # cs))"
  have "duplicationError ?b' = length h + 1" "orderError ?b' = length h + 2"
    by (simp_all only: chain_error_fields) (simp_all add: Builder_fields_def)
  with assms
  have "well_formed (h @ [BuilderObj ?b', ErrorObj duplicationMessage, ErrorObj orderMessage])"
    by (rule well_formed_new)
  then show ?thesis
    by (simp only: facade_chain_eq) (cases "chain ?b ((p, v) # cs)"; simp)
qed

lemma well_formed_combine:
  assumes "well_formed h"
  shows "well_formed (snd (cssSelectorBuilder_combine A c B h))"
proof -
  let ?n = "Builder_fields (length h + 1) (length h + 2)"
  let ?h = "h @ [BuilderObj ?n, ErrorObj duplicationMessage, ErrorObj orderMessage]"
  let ?x = "combine (result_of ?h A) c (result_of ?h B) ?n"
  have at: "builder_at ?h (length h) = Some ?n"
    by (simp add: builder_at_def)
  have "snd (cssSelectorBuilder_combine A c B h)
      = ?h[length h := BuilderObj ?x]"
    by (simp only: cssSelectorBuilder_combine_def new_Builder_eq invoke_combine_def at
        prod.case option.case snd_conv)
  then have "snd (cssSelectorBuilder_combine A c B h)
      = h @ [BuilderObj ?x, ErrorObj duplicationMessage, ErrorObj orderMessage]"
    by simp
  moreover have "duplicationError ?x = length h + 1" "orderError ?x = length h + 2"
    by (simp_all add: combine_def Builder_fields_def)
  ultimately show ?thesis
    using assms by (simp only: well_formed_new)
qed

text \<open>
  Claim C8 says that every failure constructs a new error value that names the offending
  category. It does not: on the builder of \<^verbatim>\<open>element('a').id('b')\<close>, a second
  \<^verbatim>\<open>element\<close> call and a second \<^verbatim>\<open>id\<close> call both throw the object at reference 1, which
  the constructor put in the heap before either call, and neither call adds an object to
  the heap.
\<close>

theorem failures_share_one_error_object:
  "facade_chain Element ''a'' [(Ident, ''b'')] []
     = (Normal 0,
        [BuilderObj \<lparr> idUsed = True, elementUsed = True, pseudoElementUsed = False,
           order = [0, 1], result = ''a#b'', duplicationError = 1, orderError = 2 \<rparr>,
         ErrorObj duplicationMessage, ErrorObj orderMessage])
   \<and> invoke (element ''x'') 0
        [BuilderObj \<lparr> idUsed = True, elementUsed = True, pseudoElementUsed = False,
           order = [0, 1], result = ''a#b'', duplicationError = 1, orderError = 2 \<rparr>,
         ErrorObj duplicationMessage, ErrorObj orderMessage]
     = (Abrupt 1,
        [BuilderObj \<lparr> idUsed = True, elementUsed = True, pseudoElementUsed = False,
           order = [0, 1], result = ''a#b'', duplicationError = 1, orderError = 2 \<rparr>,
         ErrorObj duplicationMessage, ErrorObj orderMessage])
   \<and> invoke (id_sel ''y'') 0
        [BuilderObj \<lparr> idUsed = True, elementUsed = True, pseudoElementUsed = False,
           order = [0, 1], result = ''a#b'', duplicationError = 1, orderError = 2 \<rparr>,
         ErrorObj duplicationMessage, ErrorObj orderMessage]
     = (Abrupt 1,
        [BuilderObj \<lparr> idUsed = True, elementUsed = True, pseudoElementUsed = False,
           order = [0, 1], result = ''a#b'', duplicationError = 1, orderError = 2 \<rparr>,
         ErrorObj duplicationMessage, ErrorObj orderMessage])"
  by (simp add: facade_chain_eq append_part_eq pushed_def Builder_fields_def
      invoke_def builder_at_def element_def id_sel_def)

text \<open>
  Claim C8, amended. A failing part-append call throws one of the two error objects the
  constructor of its builder created: \<^verbatim>\<open>this.duplicationError\<close> when the flag of element,
  id or pseudoElement is set, \<^verbatim>\<open>this.orderError\<close> otherwise. The failure constructs
  nothing (the heap keeps its length and the error object its message), the builder keeps
  both error objects for its later failures, the message names the rule and not the
  category, and no other builder of the heap has the thrown object as one of its own.
\<close>

theorem failure_throws_constructor_error:
  assumes "well_formed h" and "builder_at h this = Some b"
    and "invoke (append_part p v) this h = (Abrupt x, h')"
  shows "x = (if used p b then duplicationError b else orderError b)
       \<and> message_at h x = Some (if used p b then duplicationMessage else orderMessage)
       \<and> length h' = length h
       \<and> message_at h' x = message_at h x
       \<and> (\<exists>b'. builder_at h' this = Some b'
              \<and> duplicationError b' = duplicationError b \<and> orderError b' = orderError b)
       \<and> (\<forall>r c. r \<noteq> this \<and> builder_at h r = Some c \<longrightarrow>
              x \<noteq> duplicationError c \<and> x \<noteq> orderError c)
       \<and> well_formed h'"
proof -
  note wf = well_formed_builder [OF assms(1,2)]
  have lt: "this < length h"
    using builder_at_less [OF assms(2)] by simp
  from assms(3) have "(case append_part p v b of
        Returned b' \<Rightarrow> (Normal this, h[this := BuilderObj b'])
      | Threw y b' \<Rightarrow> (Abrupt y, h[this := BuilderObj b'])) = (Abrupt x, h')"
    by (simp only: invoke_eq [OF assms(2)])
  then obtain b' where t: "append_part p v b = Threw x b'"
    and h': "h' = h[this := BuilderObj b']"
    by (cases "append_part p v b") auto
  from t have 1: "x = (if used p b then duplicationError b else orderError b)"
    by (auto simp: append_part_eq split: if_splits)
  then have x: "x = (if used p b then this + 1 else this + 2)"
    using wf(1,2) by simp
  have 2: "message_at h x = Some (if used p b then duplicationMessage else orderMessage)"
    using wf(3,4) by (simp add: x)
  have 3: "length h' = length h"
    by (simp add: h')
  have "x \<noteq> this"
    using x by simp
  then have 4: "message_at h' x = message_at h x"
    by (simp add: h' message_at_update)
  have f: "duplicationError b' = duplicationError b" "orderError b' = orderError b"
    using error_fields_after [of p v b] t by simp_all
  have 5: "\<exists>b'. builder_at h' this = Some b'
      \<and> duplicationError b' = duplicationError b \<and> orderError b' = orderError b"
    using f lt by (simp add: h' builder_at_update)
  have 6: "x \<noteq> duplicationError c \<and> x \<noteq> orderError c"
    if "r \<noteq> this \<and> builder_at h r = Some c" for r c
  proof -
    from that have c: "builder_at h r = Some c" and ne: "r \<noteq> this" by simp_all
    note wc = well_formed_builder [OF assms(1) c]
    have "this \<noteq> r + 1"
      using message_at_less [OF wc(3)] builder_at_less [OF assms(2)] by auto
    moreover have "r \<noteq> this + 1"
      using message_at_less [OF wf(3)] builder_at_less [OF c] by auto
    ultimately show ?thesis
      using ne wc(1,2) by (auto simp: x)
  qed
  have 7: "well_formed h'"
    unfolding h' using assms(1,2) f by (rule well_formed_update)
  from 1 2 3 4 5 6 7 show ?thesis by blast
qed

theorem failure_throws_constructor_error_witness:
  "invoke (append_part Element ''x'') 0
        [BuilderObj \<lparr> idUsed = True, elementUsed = True, pseudoElementUsed = False,
           order = [0, 1], result = ''div#main'', duplicationError = 1, orderError = 2 \<rparr>,
         ErrorObj duplicationMessage, ErrorObj orderMessage,
         BuilderObj \<lparr> idUsed = True, elementUsed = True, pseudoElementUsed = False,
           order = [0, 1], result = ''table#data'', duplicationError = 4, orderError = 5 \<rparr>,
         ErrorObj duplicationMessage, ErrorObj orderMessage]
     = (Abrupt 1,
        [BuilderObj \<lparr> idUsed = True, elementUsed = True, pseudoElementUsed = False,
           order = [0, 1], result = ''div#main'', duplicationError = 1, orderError = 2 \<rparr>,
         ErrorObj duplicationMessage, ErrorObj orderMessage,
         BuilderObj \<lparr> idUsed = True, elementUsed = True, pseudoElementUsed = False,
           order = [0, 1], result = ''table#data'', duplicationError = 4, orderError = 5 \<rparr>,
         ErrorObj duplicationMessage, ErrorObj orderMessage])
   \<and> message_at
        [BuilderObj \<lparr> idUsed = True, elementUsed = True, pseudoElementUsed = False,
           order = [0, 1], result = ''div#main'', duplicationError = 1, orderError = 2 \<rparr>,
         ErrorObj duplicationMessage, ErrorObj orderMessage,
         BuilderObj \<lparr> idUsed = True, elementUsed = True, pseudoElementUsed = False,
           order = [0, 1], result = ''table#data'', duplicationError = 4, orderError = 5 \<rparr>,
         ErrorObj duplicationMessage, ErrorObj orderMessage] 1 = Some duplicationMessage
   \<and> 1 \<noteq> duplicationError \<lparr> idUsed = True, elementUsed = True, pseudoElementUsed = False,
           order = [0, 1], result = ''table#data'', duplicationError = 4, orderError = 5 \<rparr>
   \<and> 1 \<noteq> orderError \<lparr> idUsed = True, elementUsed = True, pseudoElementUsed = False,
           order = [0, 1], result = ''table#data'', duplicationError = 4, orderError = 5 \<rparr>"
proof -
  let ?a = "\<lparr> idUsed = True, elementUsed = True, pseudoElementUsed = False,
         order = [0, 1], result = ''div#main'', duplicationError = 1, orderError = 2 \<rparr>"
  let ?b = "\<lparr> idUsed = True, elementUsed = True, pseudoElementUsed = False,
         order = [0, 1], result = ''table#data'', duplicationError = 4, orderError = 5 \<rparr>"
  let ?h1 = "[BuilderObj ?a, ErrorObj duplicationMessage, ErrorObj orderMessage]"
  let ?h2 = "[BuilderObj ?a, ErrorObj duplicationMessage, ErrorObj orderMessage,
              BuilderObj ?b, ErrorObj duplicationMessage, ErrorObj orderMessage]"
  have 1: "snd (facade_chain Element ''div'' [(Ident, ''main'')] []) = ?h1"
    by (simp add: facade_chain_eq append_part_eq pushed_def Builder_fields_def)
  have 2: "snd (facade_chain Element ''table'' [(Ident, ''data'')] ?h1) = ?h2"
    by (simp add: facade_chain_eq append_part_eq pushed_def Builder_fields_def)
  have "well_formed ?h1"
    using well_formed_facade_chain [OF well_formed_Nil, of Element "''div''" "[(Ident, ''main'')]"]
    by (simp only: 1)
  then have wf: "well_formed ?h2"
    using well_formed_facade_chain [of ?h1 Element "''table''" "[(Ident, ''data'')]"]
    by (simp only: 2)
  have a: "builder_at ?h2 0 = Some ?a"
    by (simp add: builder_at_def)
  have b: "3 \<noteq> (0::nat) \<and> builder_at ?h2 3 = Some ?b"
    by (simp add: builder_at_def)
  have i: "invoke (append_part Element ''x'') 0 ?h2 = (Abrupt 1, ?h2)"
    by (simp add: invoke_def builder_at_def element_def)
  note t = failure_throws_constructor_error [OF wf a i]
  from t have "message_at ?h2 1 = Some (if used Element ?a then duplicationMessage else orderMessage)"
    by blast
  moreover from t b have "1 \<noteq> duplicationError ?b \<and> 1 \<noteq> orderError ?b"
    by blast
  ultimately show ?thesis
    using i by simp
qed

section \<open>Runs that differ in what else is in the heap\<close>

lemma append_part_relabel:
  assumes "duplicationError b \<noteq> orderError b"
  shows "append_part p v (relabel d e b) =
     (case append_part p v b of
        Returned b' \<Rightarrow> Returned (relabel d e b')
      | Threw x b' \<Rightarrow> Threw (if x = duplicationError b then d else e) (relabel d e b'))"
  using assms by (cases p) (simp_all add: append_part_eq relabel_def pushed_def)

lemma chain_relabel:
  assumes "duplicationError b \<noteq> orderError b"
  shows "chain (relabel d e b) cs =
     (case chain b cs of
        Returned b' \<Rightarrow> Returned (relabel d e b')
      | Threw x b' \<Rightarrow> Threw (if x = duplicationError b then d else e) (relabel d e b'))"
  using assms
proof (induction cs arbitrary: b)
  case Nil
  show ?case by simp
next
  case (Cons c cs)
  obtain p v where c: "c = (p, v)" by (cases c)
  show ?case
  proof (cases "append_part p v b")
    case (Returned b1)
    have f: "duplicationError b1 = duplicationError b" "orderError b1 = orderError b"
      using error_fields_after [of p v b] Returned by simp_all
    with Cons.prems have "duplicationError b1 \<noteq> orderError b1" by simp
    from Cons.IH [OF this] Returned show ?thesis
      unfolding c f
      by (simp add: append_part_relabel [OF Cons.prems] del: append_part.simps)
  next
    case (Threw x b1)
    then show ?thesis
      unfolding c
      by (simp add: append_part_relabel [OF Cons.prems] del: append_part.simps)
  qed
qed

lemma observe_facade_chain:
  "observe (facade_chain p v cs h) =
     (case chain (Builder_fields 1 2) ((p, v) # cs) of
        Returned b' \<Rightarrow> Some (Inr (result b'))
      | Threw x b' \<Rightarrow> Some (Inl (if x = 1 then duplicationMessage else orderMessage)))"
proof -
  let ?n = "length h"
  have r: "Builder_fields (?n + 1) (?n + 2) = relabel (?n + 1) (?n + 2) (Builder_fields 1 2)"
    by (simp add: Builder_fields_def relabel_def)
  have ne: "duplicationError (Builder_fields 1 2) \<noteq> orderError (Builder_fields 1 2)"
    by (simp add: Builder_fields_def)
  have d: "duplicationError (Builder_fields 1 2) = 1"
    by (simp add: Builder_fields_def)
  show ?thesis
  proof (cases "chain (Builder_fields 1 2) ((p, v) # cs)")
    case (Returned b')
    then show ?thesis
      by (simp only: facade_chain_eq r chain_relabel [OF ne])
        (simp add: invoke_stringify_def builder_at_def stringify_def relabel_def)
  next
    case (Threw x b')
    from chain_thrown [OF this] have "x = 1 \<or> x = 2"
      by (simp add: Builder_fields_def)
    with Threw show ?thesis
      by (simp only: facade_chain_eq r chain_relabel [OF ne] d)
        (auto simp: message_at_def nth_append)
  qed
qed

lemma invoke_chain_local:
  assumes "builder_at h1 r = Some b" and "builder_at h2 r = Some b"
    and "message_at h1 (duplicationError b) = message_at h2 (duplicationError b)"
    and "message_at h1 (orderError b) = message_at h2 (orderError b)"
  shows "observe (invoke_chain cs r h1) = observe (invoke_chain cs r h2)"
proof (cases "chain b cs")
  case (Returned b')
  have "r < length h1" "r < length h2"
    using assms(1,2) builder_at_less by blast+
  with Returned show ?thesis
    by (simp add: invoke_chain_eq [OF assms(1)] invoke_chain_eq [OF assms(2)]
        invoke_stringify_def builder_at_update)
next
  case (Threw x b')
  from chain_thrown [OF this] assms(3,4)
  have "message_at h1 x = message_at h2 x" by auto
  with Threw show ?thesis
    by (simp add: invoke_chain_eq [OF assms(1)] invoke_chain_eq [OF assms(2)] message_at_update)
qed

lemma between_chains:
  assumes "fst (facade_chain p v cs h) = Normal r"
  shows "observe (invoke_chain cs2 r (snd (facade_chain q w ds (snd (facade_chain p v cs h)))))
       = observe (facade_chain p v (cs @ cs2) h)"
proof -
  let ?n = "Builder_fields (length h + 1) (length h + 2)"
  from assms obtain b1 where c: "chain ?n ((p, v) # cs) = Returned b1"
    by (simp only: facade_chain_eq split: outcome.splits) simp
  let ?h1 = "h @ [BuilderObj b1, ErrorObj duplicationMessage, ErrorObj orderMessage]"
  have f1: "facade_chain p v cs h = (Normal (length h), ?h1)"
    by (simp only: facade_chain_eq c) simp
  with assms have r: "r = length h" by simp
  have e: "duplicationError b1 = length h + 1" "orderError b1 = length h + 2"
    using chain_error_fields [of ?n "(p, v) # cs"] c by (simp_all add: Builder_fields_def)
  let ?h2 = "snd (facade_chain q w ds ?h1)"
  have t: "take (length ?h1) ?h2 = ?h1"
    by (rule facade_chain_frame)
  have nth: "?h2 ! i = ?h1 ! i" if "i < length ?h1" for i
    using that by (metis t nth_take)
  have len: "length ?h1 \<le> length ?h2"
    by (metis t length_take min.cobounded1 min.commute)
  have a1: "builder_at ?h1 r = Some b1"
    by (simp add: r builder_at_def)
  have a2: "builder_at ?h2 r = Some b1"
    using nth [of r] len by (simp add: r builder_at_def)
  have m1: "message_at ?h2 (length h + 1) = message_at ?h1 (length h + 1)"
    using nth [of "length h + 1"] len by (simp add: message_at_def)
  have m2: "message_at ?h2 (length h + 2) = message_at ?h1 (length h + 2)"
    using nth [of "length h + 2"] len by (simp add: message_at_def)
  have "observe (invoke_chain cs2 r ?h2) = observe (invoke_chain cs2 r ?h1)"
    by (rule invoke_chain_local [OF a2 a1]) (simp_all only: e m1 m2)
  also have "invoke_chain cs2 r ?h1 = facade_chain p v (cs @ cs2) h"
    by (simp only: facade_chain_append f1 and_then.simps r)
  finally show ?thesis
    by (simp only: f1 snd_conv)
qed

lemma fresh_returns:
  "append_part p v (Builder_fields d e)
     = Returned ((pushed p (Builder_fields d e))\<lparr>result := fragment (p, v)\<rparr>)"
  by (cases p) (simp_all add: append_part_eq Builder_fields_def)

lemma relabel_fresh:
  "relabel d' e' ((pushed p (Builder_fields d e))\<lparr>result := t\<rparr>)
     = (pushed p (Builder_fields d' e'))\<lparr>result := t\<rparr>"
  by (cases p) (simp_all add: relabel_def pushed_def Builder_fields_def)

lemma facade_fresh:
  "facade p v h =
     (Normal (length h),
      h @ [BuilderObj ((pushed p (Builder_fields (length h + 1) (length h + 2)))
                         \<lparr>result := fragment (p, v)\<rparr>),
           ErrorObj duplicationMessage, ErrorObj orderMessage])"
proof -
  let ?n = "Builder_fields (length h + 1) (length h + 2)"
  let ?h = "h @ [BuilderObj ?n, ErrorObj duplicationMessage, ErrorObj orderMessage]"
  have at: "builder_at ?h (length h) = Some ?n"
    by (simp add: builder_at_def)
  show ?thesis
    by (simp only: facade_eq new_Builder_eq fst_conv snd_conv invoke_eq [OF at] fresh_returns)
      simp
qed

lemma builder_at_append: "builder_at h r = Some b \<Longrightarrow> builder_at (h @ t) r = Some b"
  by (auto simp: builder_at_def nth_append split: if_splits)

lemma private_view_new:
  assumes "private_view (h, xs) bs"
    and "duplicationError b = length h + 1" and "orderError b = length h + 2"
  shows "private_view
    (h @ [BuilderObj b, ErrorObj duplicationMessage, ErrorObj orderMessage], xs @ [length h])
    (bs @ [relabel 1 2 b])"
proof -
  let ?h = "h @ [BuilderObj b, ErrorObj duplicationMessage, ErrorObj orderMessage]"
  from assms(1) have wf: "well_formed h" and len: "length xs = length bs" and d: "distinct xs"
    and at: "\<And>k. k < length xs \<Longrightarrow> \<exists>c. builder_at h (xs ! k) = Some c \<and> bs ! k = relabel 1 2 c"
    by (simp_all add: private_view_def)
  have lt: "x < length h" if "x \<in> set xs" for x
  proof -
    from that obtain k where "k < length xs" "x = xs ! k"
      by (metis in_set_conv_nth)
    with at [of k] show ?thesis
      using builder_at_less by blast
  qed
  have 1: "well_formed ?h"
    using wf assms(2,3) by (rule well_formed_new)
  have 2: "distinct (xs @ [length h])"
    using d lt by auto
  have 3: "\<exists>c. builder_at ?h ((xs @ [length h]) ! k) = Some c \<and> (bs @ [relabel 1 2 b]) ! k = relabel 1 2 c"
    if "k < length (xs @ [length h])" for k
  proof (cases "k < length xs")
    case True
    from at [OF True] obtain c where "builder_at h (xs ! k) = Some c" "bs ! k = relabel 1 2 c"
      by blast
    with True len show ?thesis
      by (simp add: nth_append builder_at_append)
  next
    case False
    with that have "k = length xs" by simp
    then show ?thesis
      using len by (simp add: nth_append builder_at_def)
  qed
  from 1 2 3 len show ?thesis
    by (simp add: private_view_def)
qed

lemma private_view_update:
  assumes "private_view (h, xs) bs" and "k < length xs"
    and "builder_at h (xs ! k) = Some b"
    and "duplicationError b' = duplicationError b" and "orderError b' = orderError b"
  shows "private_view (h[xs ! k := BuilderObj b'], xs) (bs[k := relabel 1 2 b'])"
proof -
  let ?h = "h[xs ! k := BuilderObj b']"
  from assms(1) have wf: "well_formed h" and len: "length xs = length bs" and d: "distinct xs"
    and at: "\<And>j. j < length xs \<Longrightarrow> \<exists>c. builder_at h (xs ! j) = Some c \<and> bs ! j = relabel 1 2 c"
    by (simp_all add: private_view_def)
  have r: "xs ! k < length h"
    using builder_at_less [OF assms(3)] by simp
  have 1: "well_formed ?h"
    using wf assms(3,4,5) by (rule well_formed_update)
  have 3: "\<exists>c. builder_at ?h (xs ! j) = Some c \<and> bs[k := relabel 1 2 b'] ! j = relabel 1 2 c"
    if "j < length xs" for j
  proof (cases "j = k")
    case True
    with r assms(2) len show ?thesis
      by (simp add: builder_at_update)
  next
    case False
    with d that assms(2) have "xs ! j \<noteq> xs ! k"
      by (simp add: nth_eq_iff_index_eq)
    with at [OF that] False r show ?thesis
      by (simp add: builder_at_update)
  qed
  from 1 d 3 len show ?thesis
    by (simp add: private_view_def)
qed

lemma relabel_result: "result (relabel d e b) = result b"
  by (simp add: relabel_def)

lemma relabel_errors:
  "duplicationError (relabel d e b) = d" "orderError (relabel d e b) = e"
  by (simp_all add: relabel_def)

lemma step_New:
  assumes "private_view (h, xs) bs"
  shows "fst (step (New p v) (h, xs)) = fst (step_private (New p v) bs)
       \<and> private_view (snd (step (New p v) (h, xs))) (snd (step_private (New p v) bs))"
proof -
  let ?b = "(pushed p (Builder_fields (length h + 1) (length h + 2)))\<lparr>result := fragment (p, v)\<rparr>"
  let ?h = "h @ [BuilderObj ?b, ErrorObj duplicationMessage, ErrorObj orderMessage]"
  have s: "step (New p v) (h, xs) = (Some (Inr (fragment (p, v))), ?h, xs @ [length h])"
    by (simp add: facade_fresh invoke_stringify_def builder_at_def stringify_def)
  have r: "relabel 1 2 ?b = (pushed p (Builder_fields 1 2))\<lparr>result := fragment (p, v)\<rparr>"
    by (rule relabel_fresh)
  have p: "step_private (New p v) bs = (Some (Inr (fragment (p, v))), bs @ [relabel 1 2 ?b])"
    by (simp only: step_private.simps fresh_returns r verdict.simps state_after.simps)
      (simp add: stringify_def)
  have "private_view (?h, xs @ [length h]) (bs @ [relabel 1 2 ?b])"
    using assms by (rule private_view_new) (simp_all add: Builder_fields_def)
  then show ?thesis
    unfolding s p by simp
qed

lemma step_NewCombine:
  assumes "private_view (h, xs) bs"
  shows "fst (step (NewCombine i c j) (h, xs)) = fst (step_private (NewCombine i c j) bs)
       \<and> private_view (snd (step (NewCombine i c j) (h, xs)))
           (snd (step_private (NewCombine i c j) bs))"
proof (cases "i < length xs \<and> j < length xs")
  case False
  with assms show ?thesis
    by (auto simp: private_view_def)
next
  case True
  from assms have len: "length xs = length bs"
    and at: "\<And>k. k < length xs \<Longrightarrow> \<exists>b. builder_at h (xs ! k) = Some b \<and> bs ! k = relabel 1 2 b"
    by (simp_all add: private_view_def)
  from at [of i] True obtain a where a: "builder_at h (xs ! i) = Some a" "bs ! i = relabel 1 2 a"
    by blast
  from at [of j] True obtain b where b: "builder_at h (xs ! j) = Some b" "bs ! j = relabel 1 2 b"
    by blast
  have lt: "xs ! i < length h" "xs ! j < length h"
    using builder_at_less a(1) b(1) by blast+
  let ?t = "result a @ '' '' @ c @ '' '' @ result b"
  let ?x = "(Builder_fields (length h + 1) (length h + 2))\<lparr>result := ?t\<rparr>"
  let ?h = "h @ [BuilderObj ?x, ErrorObj duplicationMessage, ErrorObj orderMessage]"
  have x: "combine (result_of h (xs ! i)) c (result_of h (xs ! j))
      (Builder_fields (length h + 1) (length h + 2)) = ?x"
    by (simp add: combine_def result_of_def a(1) b(1) Builder_fields_def)
  have ch: "cssSelectorBuilder_combine (xs ! i) c (xs ! j) h = (Normal (length h), ?h)"
    by (simp only: combine_heap [OF lt] x)
  have s: "step (NewCombine i c j) (h, xs) = (Some (Inr ?t), ?h, xs @ [length h])"
    using True
    by (simp add: ch invoke_stringify_def builder_at_def stringify_def Builder_fields_def)
  have r: "relabel 1 2 ?x = (Builder_fields 1 2)\<lparr>result := ?t\<rparr>"
    by (simp add: relabel_def Builder_fields_def)
  have p: "step_private (NewCombine i c j) bs = (Some (Inr ?t), bs @ [relabel 1 2 ?x])"
    using True len by (simp add: a(2) b(2) stringify_def relabel_def Builder_fields_def)
  have "private_view (?h, xs @ [length h]) (bs @ [relabel 1 2 ?x])"
    using assms by (rule private_view_new) (simp_all add: Builder_fields_def)
  then show ?thesis
    unfolding s p by simp
qed

lemma step_On:
  assumes "private_view (h, xs) bs"
  shows "fst (step (On k p v) (h, xs)) = fst (step_private (On k p v) bs)
       \<and> private_view (snd (step (On k p v) (h, xs))) (snd (step_private (On k p v) bs))"
proof (cases "k < length xs")
  case False
  with assms show ?thesis
    by (auto simp: private_view_def)
next
  case True
  from assms have wf: "well_formed h" and len: "length xs = length bs"
    and at: "\<And>k. k < length xs \<Longrightarrow> \<exists>b. builder_at h (xs ! k) = Some b \<and> bs ! k = relabel 1 2 b"
    by (simp_all add: private_view_def)
  from at [OF True] obtain b where b: "builder_at h (xs ! k) = Some b" "bs ! k = relabel 1 2 b"
    by blast
  note e = well_formed_builder [OF wf b(1)]
  have ne: "duplicationError b \<noteq> orderError b"
    by (simp add: e)
  have lt: "xs ! k < length h"
    using builder_at_less [OF b(1)] by simp
  show ?thesis
  proof (cases "append_part p v b")
    case (Returned b')
    have f: "duplicationError b' = duplicationError b" "orderError b' = orderError b"
      using error_fields_after [of p v b] Returned by simp_all
    have s: "step (On k p v) (h, xs)
        = (Some (Inr (result b')), h[xs ! k := BuilderObj b'], xs)"
      using True lt
      by (simp add: invoke_eq [OF b(1)] Returned invoke_stringify_def builder_at_update
          stringify_def del: append_part.simps)
    have p: "step_private (On k p v) bs = (Some (Inr (result b')), bs[k := relabel 1 2 b'])"
      using True len
      by (simp add: b(2) append_part_relabel [OF ne] Returned stringify_def relabel_result
          del: append_part.simps)
    have "private_view (h[xs ! k := BuilderObj b'], xs) (bs[k := relabel 1 2 b'])"
      using assms True b(1) f by (rule private_view_update)
    then show ?thesis
      unfolding s p by simp
  next
    case (Threw x b')
    have f: "duplicationError b' = duplicationError b" "orderError b' = orderError b"
      using error_fields_after [of p v b] Threw by simp_all
    from Threw have x: "x = (if used p b then duplicationError b else orderError b)"
      by (auto simp: append_part_eq split: if_splits)
    have xr: "x \<noteq> xs ! k"
      using x e(1,2) by simp
    have m: "message_at h x = Some (if x = duplicationError b then duplicationMessage else orderMessage)"
      using x e ne by simp
    have s: "step (On k p v) (h, xs)
        = (Some (Inl (if x = duplicationError b then duplicationMessage else orderMessage)),
           h[xs ! k := BuilderObj b'], xs)"
      using True xr
      by (simp add: invoke_eq [OF b(1)] Threw message_at_update m del: append_part.simps)
    have p: "step_private (On k p v) bs
        = (Some (Inl (if x = duplicationError b then duplicationMessage else orderMessage)),
           bs[k := relabel 1 2 b'])"
      using True len
      by (simp add: b(2) append_part_relabel [OF ne] Threw relabel_errors
          del: append_part.simps)
    have "private_view (h[xs ! k := BuilderObj b'], xs) (bs[k := relabel 1 2 b'])"
      using assms True b(1) f by (rule private_view_update)
    then show ?thesis
      unfolding s p by simp
  qed
qed

lemma step_simulation:
  assumes "private_view s bs"
  shows "fst (step a s) = fst (step_private a bs)
       \<and> private_view (snd (step a s)) (snd (step_private a bs))"
proof -
  obtain h xs where s: "s = (h, xs)" by (cases s)
  show ?thesis
    using assms unfolding s
    by (cases a) (simp_all only: step_New step_NewCombine step_On)
qed

lemma run_simulation: "private_view s bs \<Longrightarrow> run as s = run_private as bs"
proof (induction as arbitrary: s bs)
  case Nil
  show ?case by simp
next
  case (Cons a as)
  from step_simulation [OF Cons.prems, of a]
  have o: "fst (step a s) = fst (step_private a bs)"
    and v: "private_view (snd (step a s)) (snd (step_private a bs))"
    by simp_all
  from Cons.IH [OF v] o show ?case
    by (simp add: case_prod_beta)
qed

lemma private_view_empty: "private_view ([], []) []"
  by (simp add: private_view_def well_formed_Nil)

lemma about_existing:
  "k < length bs \<Longrightarrow> valid (length bs) as \<Longrightarrow>
   about k (length bs) as (run_private as bs) = run_private (own k (length bs) as) [bs ! k]"
proof (induction as arbitrary: bs)
  case Nil
  show ?case by simp
next
  case (Cons a as)
  show ?case
  proof (cases a)
    case (New p v)
    let ?bs = "bs @ [state_after (append_part p v (Builder_fields 1 2))]"
    have "about k (length ?bs) as (run_private as ?bs) = run_private (own k (length ?bs) as) [?bs ! k]"
      using Cons.prems by (intro Cons.IH) (simp_all add: New)
    with Cons.prems(1) show ?thesis
      by (simp add: New nth_append del: append_part.simps)
  next
    case (NewCombine i c j)
    let ?bs = "bs @ [(Builder_fields 1 2)
        \<lparr>result := stringify (bs ! i) @ '' '' @ c @ '' '' @ stringify (bs ! j)\<rparr>]"
    have "about k (length ?bs) as (run_private as ?bs) = run_private (own k (length ?bs) as) [?bs ! k]"
      using Cons.prems by (intro Cons.IH) (simp_all add: NewCombine)
    with Cons.prems show ?thesis
      by (simp add: NewCombine nth_append)
  next
    case (On k' p v)
    let ?bs = "bs[k' := state_after (append_part p v (bs ! k'))]"
    have "about k (length ?bs) as (run_private as ?bs) = run_private (own k (length ?bs) as) [?bs ! k]"
      using Cons.prems by (intro Cons.IH) (simp_all add: On)
    with Cons.prems show ?thesis
      by (simp add: On del: append_part.simps)
  qed
qed

lemma about_created:
  "length bs \<le> k \<Longrightarrow> valid (length bs) as \<Longrightarrow> created_by_part k (length bs) as \<Longrightarrow>
   about k (length bs) as (run_private as bs) = run_private (own k (length bs) as) []"
proof (induction as arbitrary: bs)
  case Nil
  then show ?case by simp
next
  case (Cons a as)
  show ?case
  proof (cases a)
    case (New p v)
    let ?bs = "bs @ [state_after (append_part p v (Builder_fields 1 2))]"
    show ?thesis
    proof (cases "k = length bs")
      case True
      have "about k (length ?bs) as (run_private as ?bs)
          = run_private (own k (length ?bs) as) [?bs ! k]"
        using Cons.prems True by (intro about_existing) (simp_all add: New)
      with True show ?thesis
        by (simp add: New del: append_part.simps)
    next
      case False
      have "about k (length ?bs) as (run_private as ?bs) = run_private (own k (length ?bs) as) []"
        using Cons.prems False by (intro Cons.IH) (simp_all add: New)
      with False show ?thesis
        by (simp add: New del: append_part.simps)
    qed
  next
    case (NewCombine i c j)
    let ?bs = "bs @ [(Builder_fields 1 2)
        \<lparr>result := stringify (bs ! i) @ '' '' @ c @ '' '' @ stringify (bs ! j)\<rparr>]"
    have "about k (length ?bs) as (run_private as ?bs) = run_private (own k (length ?bs) as) []"
      using Cons.prems by (intro Cons.IH) (simp_all add: NewCombine)
    with Cons.prems show ?thesis
      by (simp add: NewCombine)
  next
    case (On k' p v)
    let ?bs = "bs[k' := state_after (append_part p v (bs ! k'))]"
    have "about k (length ?bs) as (run_private as ?bs) = run_private (own k (length ?bs) as) []"
      using Cons.prems by (intro Cons.IH) (simp_all add: On)
    with Cons.prems show ?thesis
      by (simp add: On del: append_part.simps)
  qed
qed

lemma run_is_private: "run as ([], []) = run_private as []"
  using private_view_empty by (rule run_simulation)

lemma chain_runs_alone:
  assumes "valid 0 as" and "created_by_part k 0 as"
  shows "about k 0 as (run as ([], [])) = run (own k 0 as) ([], [])"
  using about_created [of "[]" k as] assms by (simp add: run_is_private)

lemma invoke_frame:
  "length (snd (invoke m r h)) = length h \<and> (s \<noteq> r \<longrightarrow> snd (invoke m r h) ! s = h ! s)"
  by (simp add: invoke_def split: option.splits outcome.splits)

lemma invoke_local:
  assumes "builder_at h' r = builder_at h r"
  shows "fst (invoke m r h') = fst (invoke m r h)
       \<and> builder_at (snd (invoke m r h')) r = builder_at (snd (invoke m r h)) r"
proof (cases "builder_at h r")
  case None
  with assms show ?thesis by (simp add: invoke_def)
next
  case (Some b)
  with assms have b': "builder_at h' r = Some b" by simp
  have "r < length h" "r < length h'"
    using builder_at_less Some b' by blast+
  then show ?thesis
    by (cases "m b") (simp_all add: invoke_eq [OF Some] invoke_eq [OF b'] builder_at_update)
qed

lemma facade_constructs:
  "map_option stringify (builder_at (snd (facade p v h)) (length h)) = Some (fragment (p, v))"
  by (simp add: facade_fresh builder_at_def stringify_def)

lemma combine_constructs:
  "builder_at (snd (cssSelectorBuilder_combine A c B h)) (length h) \<noteq> None"
  by (simp add: cssSelectorBuilder_combine_def new_Builder_eq invoke_combine_def builder_at_def)

text \<open>
  Claim C9. Each of the seven facade entry points returns a reference that no object of
  the heap has, with a new builder at it, and changes no object that was in the heap. A
  method call assigns to its receiver alone and depends on its receiver alone. So every
  program of facade calls and method calls, in any interleaving, sees what it sees when
  each variable holds a builder value of its own (\<open>run_private\<close>); and in every valid
  program the chain of a variable declared by a part entry point sees what it sees when
  that chain runs alone from the empty heap, whatever other chains ran before it or
  between its calls. The result of a chain is the same in every two heaps \<open>h\<close>, \<open>h'\<close>;
  \<^verbatim>\<open>combine\<close> depends on the heap only through the \<^verbatim>\<open>result\<close> properties of its operands,
  whatever objects these are.
\<close>

theorem facade_calls_share_no_state:
  "fst (cssSelectorBuilder_element v h) = Normal (length h)
   \<and> fst (cssSelectorBuilder_id v h) = Normal (length h)
   \<and> fst (cssSelectorBuilder_class v h) = Normal (length h)
   \<and> fst (cssSelectorBuilder_attr v h) = Normal (length h)
   \<and> fst (cssSelectorBuilder_pseudoClass v h) = Normal (length h)
   \<and> fst (cssSelectorBuilder_pseudoElement v h) = Normal (length h)
   \<and> fst (cssSelectorBuilder_combine A c B h) = Normal (length h)
   \<and> builder_at h (length h) = None \<and> message_at h (length h) = None
   \<and> map_option stringify (builder_at (snd (facade p v h)) (length h)) = Some (fragment (p, v))
   \<and> builder_at (snd (cssSelectorBuilder_combine A c B h)) (length h) \<noteq> None
   \<and> take (length h) (snd (facade p v h)) = h
   \<and> take (length h) (snd (facade_chain p v cs h)) = h
   \<and> take (length h) (snd (cssSelectorBuilder_combine A c B h)) = h
   \<and> length (snd (invoke m r h)) = length h
   \<and> (s \<noteq> r \<longrightarrow> snd (invoke m r h) ! s = h ! s)
   \<and> (builder_at h' r = builder_at h r \<longrightarrow>
        fst (invoke m r h') = fst (invoke m r h)
        \<and> builder_at (snd (invoke m r h')) r = builder_at (snd (invoke m r h)) r)
   \<and> run as ([], []) = run_private as []
   \<and> (valid 0 as \<and> created_by_part k 0 as \<longrightarrow>
        about k 0 as (run as ([], [])) = run (own k 0 as) ([], []))
   \<and> observe (facade_chain p v cs h) = observe (facade_chain p v cs h')
   \<and> (fst (facade_chain p v cs h) = Normal t \<longrightarrow>
        observe (invoke_chain cs2 t (snd (facade_chain q w ds (snd (facade_chain p v cs h)))))
          = observe (facade_chain p v (cs @ cs2) h'))
   \<and> (A < length h \<and> B < length h \<longrightarrow>
        observe (cssSelectorBuilder_combine A c B h)
          = Some (Inr (template (result_of h A) @ '' '' @ c @ '' '' @ template (result_of h B))))"
proof (intro conjI)
  show "fst (cssSelectorBuilder_element v h) = Normal (length h)"
    using facade_fresh [of Element v h] by simp
  show "fst (cssSelectorBuilder_id v h) = Normal (length h)"
    using facade_fresh [of Ident v h] by simp
  show "fst (cssSelectorBuilder_class v h) = Normal (length h)"
    using facade_fresh [of Class v h] by simp
  show "fst (cssSelectorBuilder_attr v h) = Normal (length h)"
    using facade_fresh [of Attr v h] by simp
  show "fst (cssSelectorBuilder_pseudoClass v h) = Normal (length h)"
    using facade_fresh [of PseudoClass v h] by simp
  show "fst (cssSelectorBuilder_pseudoElement v h) = Normal (length h)"
    using facade_fresh [of PseudoElement v h] by simp
  show "fst (cssSelectorBuilder_combine A c B h) = Normal (length h)"
    by (rule combine_returns)
  show "builder_at h (length h) = None"
    by (simp add: builder_at_def)
  show "message_at h (length h) = None"
    by (simp add: message_at_def)
  show "map_option stringify (builder_at (snd (facade p v h)) (length h)) = Some (fragment (p, v))"
    by (rule facade_constructs)
  show "builder_at (snd (cssSelectorBuilder_combine A c B h)) (length h) \<noteq> None"
    by (rule combine_constructs)
  show "take (length h) (snd (facade p v h)) = h"
    by (simp add: facade_fresh)
  show "take (length h) (snd (facade_chain p v cs h)) = h"
    by (rule facade_chain_frame)
  show "take (length h) (snd (cssSelectorBuilder_combine A c B h)) = h"
    by (rule combine_frame)
  show "length (snd (invoke m r h)) = length h"
    using invoke_frame by blast
  show "s \<noteq> r \<longrightarrow> snd (invoke m r h) ! s = h ! s"
    using invoke_frame by blast
  show "builder_at h' r = builder_at h r \<longrightarrow>
        fst (invoke m r h') = fst (invoke m r h)
        \<and> builder_at (snd (invoke m r h')) r = builder_at (snd (invoke m r h)) r"
    using invoke_local by blast
  show "run as ([], []) = run_private as []"
    by (rule run_is_private)
  show "valid 0 as \<and> created_by_part k 0 as \<longrightarrow>
        about k 0 as (run as ([], [])) = run (own k 0 as) ([], [])"
    using chain_runs_alone by blast
  show "observe (facade_chain p v cs h) = observe (facade_chain p v cs h')"
    by (simp only: observe_facade_chain)
  show "fst (facade_chain p v cs h) = Normal t \<longrightarrow>
        observe (invoke_chain cs2 t (snd (facade_chain q w ds (snd (facade_chain p v cs h)))))
          = observe (facade_chain p v (cs @ cs2) h')"
  proof
    assume "fst (facade_chain p v cs h) = Normal t"
    then have "observe (invoke_chain cs2 t (snd (facade_chain q w ds (snd (facade_chain p v cs h)))))
        = observe (facade_chain p v (cs @ cs2) h)"
      by (rule between_chains)
    also have "\<dots> = observe (facade_chain p v (cs @ cs2) h')"
      by (simp only: observe_facade_chain)
    finally show "observe (invoke_chain cs2 t (snd (facade_chain q w ds (snd (facade_chain p v cs h)))))
        = observe (facade_chain p v (cs @ cs2) h')" .
  qed
  show "A < length h \<and> B < length h \<longrightarrow>
        observe (cssSelectorBuilder_combine A c B h)
          = Some (Inr (template (result_of h A) @ '' '' @ c @ '' '' @ template (result_of h B)))"
    using combine_observed_any by blast
qed

theorem facade_calls_share_no_state_witness:
  "about 0 0
      [New Ident ''main'', New Element ''div'', On 0 Class ''c'', NewCombine 0 ''+'' 1,
       On 1 Ident ''x'', On 0 Element ''e'', On 2 Class ''k'', On 1 Element ''z'']
      (run [New Ident ''main'', New Element ''div'', On 0 Class ''c'', NewCombine 0 ''+'' 1,
            On 1 Ident ''x'', On 0 Element ''e'', On 2 Class ''k'', On 1 Element ''z'']
         ([], []))
     = [Some (Inr ''#main''), Some (Inr ''#main.c''), Some (Inl orderMessage)]
   \<and> about 1 0
      [New Ident ''main'', New Element ''div'', On 0 Class ''c'', NewCombine 0 ''+'' 1,
       On 1 Ident ''x'', On 0 Element ''e'', On 2 Class ''k'', On 1 Element ''z'']
      (run [New Ident ''main'', New Element ''div'', On 0 Class ''c'', NewCombine 0 ''+'' 1,
            On 1 Ident ''x'', On 0 Element ''e'', On 2 Class ''k'', On 1 Element ''z'']
         ([], []))
     = [Some (Inr ''div''), Some (Inr ''div#x''), Some (Inl duplicationMessage)]
   \<and> observe (cssSelectorBuilder_combine 0 ''>'' 1
        [BuilderObj \<lparr> idUsed = False, elementUsed = True, pseudoElementUsed = False,
           order = [0], result = ''div'', duplicationError = 1, orderError = 2 \<rparr>,
         ErrorObj duplicationMessage, ErrorObj orderMessage])
     = Some (Inr ''div > undefined'')"
proof -
  let ?S = "[New Ident ''main'', New Element ''div'', On 0 Class ''c'', NewCombine 0 ''+'' 1,
       On 1 Ident ''x'', On 0 Element ''e'', On 2 Class ''k'', On 1 Element ''z'']"
  let ?mine = "[New Ident ''main'', On 0 Class ''c'', On 0 Element ''e'']"
  let ?other = "[New Element ''div'', On 0 Ident ''x'', On 0 Element ''z'']"
  let ?h = "[BuilderObj \<lparr> idUsed = False, elementUsed = True, pseudoElementUsed = False,
           order = [0], result = ''div'', duplicationError = 1, orderError = 2 \<rparr>,
         ErrorObj duplicationMessage, ErrorObj orderMessage]"
  note t = facade_calls_share_no_state
  have v: "valid 0 ?S" by simp
  have c0: "created_by_part 0 0 ?S" by simp
  have c1: "created_by_part 1 0 ?S" by simp
  have o0: "own 0 0 ?S = ?mine" by simp
  have o1: "own 1 0 ?S = ?other" by simp
  have p0: "run_private ?mine []
      = [Some (Inr ''#main''), Some (Inr ''#main.c''), Some (Inl orderMessage)]"
    by (simp add: append_part_eq pushed_def Builder_fields_def stringify_def)
  have p1: "run_private ?other []
      = [Some (Inr ''div''), Some (Inr ''div#x''), Some (Inl duplicationMessage)]"
    by (simp add: append_part_eq pushed_def Builder_fields_def stringify_def)
  have r: "result_of ?h 0 = Some ''div''" "result_of ?h 1 = None"
    by (simp_all add: result_of_def builder_at_def)
  have lt: "(0::nat) < length ?h \<and> (1::nat) < length ?h" by simp
  from t [where as = ?S and k = 0] v c0
  have "about 0 0 ?S (run ?S ([], [])) = run (own 0 0 ?S) ([], [])"
    by blast
  moreover from t [where as = ?mine] have "run ?mine ([], []) = run_private ?mine []"
    by blast
  ultimately have a0: "about 0 0 ?S (run ?S ([], []))
      = [Some (Inr ''#main''), Some (Inr ''#main.c''), Some (Inl orderMessage)]"
    by (simp only: o0 p0)
  from t [where as = ?S and k = 1] v c1
  have "about 1 0 ?S (run ?S ([], [])) = run (own 1 0 ?S) ([], [])"
    by blast
  moreover from t [where as = ?other] have "run ?other ([], []) = run_private ?other []"
    by blast
  ultimately have a1: "about 1 0 ?S (run ?S ([], []))
      = [Some (Inr ''div''), Some (Inr ''div#x''), Some (Inl duplicationMessage)]"
    by (simp only: o1 p1)
  from t [where h = ?h and A = 0 and B = 1 and c = "''>''"] lt
  have "observe (cssSelectorBuilder_combine 0 ''>'' 1 ?h)
      = Some (Inr (template (result_of ?h 0) @ '' '' @ ''>'' @ '' '' @ template (result_of ?h 1)))"
    by blast
  then have a2: "observe (cssSelectorBuilder_combine 0 ''>'' 1 ?h) = Some (Inr ''div > undefined'')"
    by (simp only: r) simp
  from a0 a1 a2 show ?thesis
    by (intro conjI)
qed

end
